theory Spec2Isabelle
  imports Main "HOL-Library.Code_Target_Nat"
begin

section \<open>The trace-to-graph updater (VisibleFunctionUpdater)\<close>

text \<open>
  A shallow embedding of \<^verbatim>\<open>VisibleFunctionUpdater\<close>: the closure that consumes one
  interpreter state per step and mutates the node list, the link list and the scope chain.

  \<^item> A node is a JavaScript object with identity, shared between \<^verbatim>\<open>nodes\<close>,
    \<^verbatim>\<open>scopeChain\<close>, the links, \<^verbatim>\<open>rootNode\<close>, \<^verbatim>\<open>exitingNode\<close> and the
    \<^verbatim>\<open>callerNode\<close> back-references. It is modelled as a reference (its allocation
    number) into an explicit store \<open>heap\<close> that holds the \<^verbatim>\<open>info\<close> object of each node.
  \<^item> The closure variables are the fields of the record \<open>updater\<close>; every function takes
    the record and returns it updated.
  \<^item> A \<^verbatim>\<open>TypeError\<close> raised by reading a property of \<^verbatim>\<open>null\<close> or
    \<^verbatim>\<open>undefined\<close> is the result \<open>Inl TypeError\<close>.
  \<^item> \<^verbatim>\<open>undefined\<close> and \<^verbatim>\<open>null\<close> are \<open>None\<close>; where the code tells them apart
    (\<^verbatim>\<open>assignmentWarningVar\<close>) the type is a nested option.
\<close>

subsection \<open>Interpreter states\<close>

record callee =
  ctype :: string
  cname :: "string option"
  cid_name :: "string option"

record astnode =
  ntype :: string
  callee :: "callee option"
  arguments :: "string list"
  left_name :: "string option"

record ivalue =
  isPrimitive :: bool
  data :: "string option"

record funcobj =
  nativeFunc :: bool
  params :: "string list"

text \<open>
  One element of \<^verbatim>\<open>interpreter.stateStack\<close>. \<open>cid_name\<close> is
  \<^verbatim>\<open>callee.id.name\<close> (\<open>None\<close> when \<^verbatim>\<open>callee.id\<close> is missing, where the read
  throws); \<open>doneCallee\<close>, \<open>nArgs\<close> and \<open>func\<close> are the fields
  \<^verbatim>\<open>doneCallee_\<close>, \<^verbatim>\<open>n_\<close> and \<^verbatim>\<open>func_\<close>; \<open>nArgs\<close> is \<open>0\<close>
  when \<^verbatim>\<open>n_\<close> is \<^verbatim>\<open>undefined\<close> (both are falsy);
  \<open>scope\<close> holds \<^verbatim>\<open>Object.keys(state.scope.properties)\<close>; \<open>params\<close> holds
  \<^verbatim>\<open>pluck(state.func_.node.params, 'name')\<close>; \<open>doneLeft\<close> and \<open>doneRight\<close> hold
  whether the field is \<^verbatim>\<open>=== true\<close>.
\<close>

record istate =
  node :: astnode
  doneCallee :: bool
  doneExec :: bool
  doneLeft :: bool
  doneRight :: bool
  nArgs :: nat
  val :: "ivalue option"
  scope :: "string list option"
  func :: "funcobj option"

type_synonym interpreter = "istate list"

subsection \<open>The formatting collaborator\<close>

text \<open>
  \<^verbatim>\<open>formatOutput\<close> is imported from another module; its four functions are parameters
  of the model. An argument identifier is a name, or \<open>None\<close> for \<^verbatim>\<open>undefined\<close>.
\<close>

record formatOutput =
  getArgIdentifiers :: "astnode \<Rightarrow> string option list"
  getDisplayArgs :: "astnode \<Rightarrow> string list"
  displayNameOf :: "string \<Rightarrow> string list \<Rightarrow> bool \<Rightarrow> string"
  interpreterIdentifier :: "ivalue \<Rightarrow> string option \<Rightarrow> string"

subsection \<open>Nodes, links and the closure variables\<close>

text \<open>
  The \<^verbatim>\<open>info\<close> object of a node. \<open>errorCount\<close> exists on the root only in the source
  and is read nowhere else; \<open>paramIds\<close> and \<open>variablesDeclaredInScope\<close> are absent
  (\<open>None\<close>) until the update step sets them.
\<close>

record info =
  name :: string
  argumentIds :: "string option list"
  displayArgs :: "string list"
  displayName :: string
  callerNode :: "nat option"
  itype :: string
  status :: string
  errorCount :: nat
  paramIds :: "string list option"
  variablesDeclaredInScope :: "string list option"

record link =
  source :: nat
  target :: nat
  lstate :: string
  linkIndex :: nat

datatype error = TypeError

record updater =
  nodes :: "nat list"
  links :: "link list"
  state :: "istate option"
  prevState :: "istate option"
  scopeChain :: "nat list"
  currentScope :: "string list"
  updatedDisplayArgs :: "string option list"
  rootNode :: "nat option"
  linkIndexCounter :: nat
  rootNodeIndex :: nat
  recursion :: bool
  warning :: "(string \<times> string) option"
  assignmentWarningVar :: "string option option"
  exitingNode :: "nat option"
  heap :: "nat \<Rightarrow> info"
  nextId :: nat

definition noInfo :: info where
  "noInfo = \<lparr>name = [], argumentIds = [], displayArgs = [], displayName = [],
     callerNode = None, itype = [], status = [], errorCount = 0, paramIds = None,
     variablesDeclaredInScope = None\<rparr>"

text \<open>\<^verbatim>\<open>VisibleFunctionUpdater(resetNodes, resetLinks)\<close> on two empty arrays.\<close>

definition VisibleFunctionUpdater :: updater where
  "VisibleFunctionUpdater = \<lparr>nodes = [], links = [], state = None, prevState = None,
     scopeChain = [], currentScope = [], updatedDisplayArgs = [], rootNode = None,
     linkIndexCounter = 0, rootNodeIndex = 0, recursion = False, warning = None,
     assignmentWarningVar = None, exitingNode = None, heap = (\<lambda>_. noInfo), nextId = 0\<rparr>"

subsection \<open>Library functions\<close>

definition lodash_last :: "'a list \<Rightarrow> 'a option" where
  "lodash_last xs = (if xs = [] then None else Some (last xs))"

fun lodash_includes :: "string list option \<Rightarrow> string option \<Rightarrow> bool" where
  "lodash_includes (Some xs) (Some x) = (x \<in> set xs)"
| "lodash_includes _ _ = False"

fun indexOf :: "'a list \<Rightarrow> 'a \<Rightarrow> nat option" where
  "indexOf [] a = None"
| "indexOf (x # xs) a = (if x = a then Some 0 else map_option Suc (indexOf xs a))"

text \<open>
  \<^verbatim>\<open>x++\<close> on a JavaScript number that holds a natural number: the numbers are
  doubles, so the sum is exact below \<open>9007199254740992\<close> (two to the power 53), and
  one more than that rounds back to it. The counters \<^verbatim>\<open>linkIndex\<close> and
  \<^verbatim>\<open>errorCount\<close> start at \<open>0\<close> and only change by \<^verbatim>\<open>++\<close>.
  \<^verbatim>\<open>rootNodeIndex\<close>, which is an index into the node list, is a natural number.
\<close>

definition increment :: "nat \<Rightarrow> nat" where
  "increment x = (if x < 9007199254740992 then x + 1 else x)"

text \<open>\<^verbatim>\<open>xs[i]\<close>: \<^verbatim>\<open>undefined\<close> out of range.\<close>

definition at :: "'a list \<Rightarrow> nat \<Rightarrow> 'a option" where
  "at xs i = (if i < length xs then Some (xs ! i) else None)"

text \<open>\<^verbatim>\<open>xs.splice(start, count)\<close> with \<open>0 \<le> start\<close> and \<open>0 \<le> count\<close>.\<close>

definition splice :: "nat \<Rightarrow> nat \<Rightarrow> 'a list \<Rightarrow> 'a list" where
  "splice start count xs = take start xs @ drop (start + count) xs"

subsection \<open>Step classifier\<close>

definition isSupportedFunctionCall :: "istate \<Rightarrow> bool" where
  "isSupportedFunctionCall st \<longleftrightarrow>
     (ntype (node st) = ''CallExpression'' \<and> \<not> doneCallee st) \<and>
     \<not> (case callee (node st) of None \<Rightarrow> False | Some c \<Rightarrow> ctype c = ''MemberExpression'')"

definition isSupportedReturnToCaller :: "istate \<Rightarrow> bool" where
  "isSupportedReturnToCaller st \<longleftrightarrow>
     (ntype (node st) = ''CallExpression'' \<and> doneExec st) \<and>
     \<not> (case callee (node st) of None \<Rightarrow> False | Some c \<Rightarrow> ctype c = ''MemberExpression'')"

subsection \<open>Entering a function\<close>

definition getCallLink :: "nat option \<Rightarrow> nat option \<Rightarrow> string \<Rightarrow> updater \<Rightarrow> link option \<times> updater" where
  "getCallLink src tgt lst s =
     (case (src, tgt) of
        (Some a, Some b) \<Rightarrow>
          (Some \<lparr>source = a, target = b, lstate = lst, linkIndex = linkIndexCounter s\<rparr>,
           s\<lparr>linkIndexCounter := increment (linkIndexCounter s)\<rparr>)
      | _ \<Rightarrow> (None, s))"

text \<open>\<^verbatim>\<open>state.node.callee.name || state.node.callee.id.name\<close>\<close>

definition calleeNameOf :: "astnode \<Rightarrow> error + string" where
  "calleeNameOf n =
     (case callee n of
        None \<Rightarrow> Inl TypeError
      | Some c \<Rightarrow>
          (case cname c of
             Some x \<Rightarrow> if x \<noteq> [] then Inr x
                       else (case cid_name c of None \<Rightarrow> Inl TypeError | Some y \<Rightarrow> Inr y)
           | None \<Rightarrow> (case cid_name c of None \<Rightarrow> Inl TypeError | Some y \<Rightarrow> Inr y)))"

text \<open>
  The body of the \<^verbatim>\<open>argumentIds.forEach\<close>: an argument that is one of the caller's
  parameter names is replaced by \<^verbatim>\<open>callerNode.info.argumentIds[callerParamIndex]\<close>.
  Parameter names are strings, so \<^verbatim>\<open>indexOf(undefined)\<close> is \<open>-1\<close>.
\<close>

definition substituteArg :: "string list \<Rightarrow> string option list \<Rightarrow> string option \<Rightarrow> string option" where
  "substituteArg callerParams callerArgs arg =
     (case arg of
        None \<Rightarrow> None
      | Some a \<Rightarrow>
          (case indexOf callerParams a of
             None \<Rightarrow> arg
           | Some callerParamIndex \<Rightarrow>
               (case at callerArgs callerParamIndex of None \<Rightarrow> None | Some r \<Rightarrow> r)))"

definition addEnteringFunction :: "formatOutput \<Rightarrow> istate \<Rightarrow> updater \<Rightarrow> error + (updater \<times> bool)" where
  "addEnteringFunction fo st s =
     (if isSupportedFunctionCall st then
        (case calleeNameOf (node st) of
           Inl e \<Rightarrow> Inl e
         | Inr calleeName \<Rightarrow>
            (let caller = lodash_last (scopeChain s);
                 raw = getArgIdentifiers fo (node st);
                 rec = (case caller of None \<Rightarrow> False
                        | Some c \<Rightarrow> calleeName = name (heap s c));
                 args = (case caller of None \<Rightarrow> raw
                         | Some c \<Rightarrow>
                            (case paramIds (heap s c) of None \<Rightarrow> raw
                             | Some callerParams \<Rightarrow>
                                 map (substituteArg callerParams (argumentIds (heap s c))) raw));
                 dargs = getDisplayArgs fo (node st);
                 isFirst = (nodes s = []);
                 calleeNode = nextId s;
                 calleeInfo = \<lparr>name = calleeName, argumentIds = args, displayArgs = dargs,
                    displayName = displayNameOf fo calleeName dargs rec,
                    callerNode = caller,
                    itype = (if isFirst then ''root'' else ''function''),
                    status = (if isFirst then ''success'' else ''normal''),
                    errorCount = 0, paramIds = None, variablesDeclaredInScope = None\<rparr>;
                 s1 = s\<lparr>recursion := rec,
                        heap := (heap s)(calleeNode := calleeInfo),
                        nextId := Suc calleeNode,
                        rootNode := (if isFirst then Some calleeNode else rootNode s),
                        nodes := nodes s @ [calleeNode]\<rparr>;
                 (callLink, s2) = getCallLink caller (Some calleeNode) ''calling'' s1;
                 s3 = (case callLink of None \<Rightarrow> s2
                       | Some l \<Rightarrow> s2\<lparr>links := links s2 @ [l]\<rparr>)
             in Inr (s3\<lparr>scopeChain := scopeChain s3 @ [calleeNode]\<rparr>, True)))
      else Inr (s, False))"

subsection \<open>Exiting a function\<close>

definition setStatus :: "nat \<Rightarrow> string \<Rightarrow> updater \<Rightarrow> updater" where
  "setStatus n v s = s\<lparr>heap := (heap s)(n := (heap s n)\<lparr>status := v\<rparr>)\<rparr>"

definition incErrorCount :: "nat \<Rightarrow> updater \<Rightarrow> updater" where
  "incErrorCount r s = s\<lparr>heap := (heap s)(r := (heap s r)\<lparr>errorCount := increment (errorCount (heap s r))\<rparr>)\<rparr>"

text \<open>\<^verbatim>\<open>state.node.callee.id.name === rootNode.info.name\<close>\<close>

definition calleeIdIsRoot :: "istate \<Rightarrow> updater \<Rightarrow> error + bool" where
  "calleeIdIsRoot st s =
     (case callee (node st) of
        None \<Rightarrow> Inl TypeError
      | Some c \<Rightarrow>
          (case cid_name c of
             None \<Rightarrow> Inl TypeError
           | Some n \<Rightarrow>
               (case rootNode s of
                  None \<Rightarrow> Inl TypeError
                | Some r \<Rightarrow> Inr (n = name (heap s r)))))"

definition isNotExitingRootNode :: "istate \<Rightarrow> updater \<Rightarrow> error + bool" where
  "isNotExitingRootNode st s =
     (case (if ntype (node st) = ''FunctionExpression'' then calleeIdIsRoot st s else Inr False) of
        Inl e \<Rightarrow> Inl e
      | Inr a \<Rightarrow>
          if a then Inr False
          else if ntype (node st) = ''CallExpression'' then
            (case callee (node st) of
               None \<Rightarrow> Inl TypeError
             | Some c \<Rightarrow>
                 if ctype c = ''FunctionExpression'' then
                   (case calleeIdIsRoot st s of Inl e \<Rightarrow> Inl e | Inr b \<Rightarrow> Inr (\<not> b))
                 else Inr True)
          else Inr True)"

text \<open>
  The test of \<^verbatim>\<open>exitLink\<close>:
  \<^verbatim>\<open>(state.doneCallee_) && (state.value.isPrimitive && state.value.data !== undefined) || !state.value.isPrimitive\<close>.
  In \<^verbatim>\<open>exitLink\<close>, \<^verbatim>\<open>links.unshift(returnLink); links.pop()\<close> is
  \<open>butlast (l # links)\<close>; \<^verbatim>\<open>getCallLink\<close> on two nodes always returns a link, so
  the branch for no link is never taken.
\<close>

definition explicitReturn :: "istate \<Rightarrow> ivalue \<Rightarrow> bool" where
  "explicitReturn st v \<longleftrightarrow>
     (doneCallee st \<and> (isPrimitive v \<and> data v \<noteq> None)) \<or> \<not> isPrimitive v"

definition exitLink :: "istate \<Rightarrow> link \<Rightarrow> updater \<Rightarrow> error + updater" where
  "exitLink st exitingLink s =
     (case val st of
        None \<Rightarrow> Inl TypeError
      | Some v \<Rightarrow>
          if explicitReturn st v then
            (let s1 = setStatus (target exitingLink) ''returning'' s;
                 (returnLink, s2) =
                    getCallLink (Some (target exitingLink)) (Some (source exitingLink)) ''returning'' s1
             in (case returnLink of
                   None \<Rightarrow> Inl TypeError
                 | Some l \<Rightarrow> Inr (s2\<lparr>links := butlast (l # links s2)\<rparr>)))
          else
            (case rootNode s of
               None \<Rightarrow> Inl TypeError
             | Some r \<Rightarrow>
                (let s1 = incErrorCount r s;
                     s2 = setStatus (target exitingLink) ''failure'' s1;
                     s3 = s2\<lparr>warning := Some (''Principle: Referential transparency'',
                                               ''Function does not return a value'')\<rparr>;
                     s4 = (if source exitingLink \<noteq> r
                           then setStatus (source exitingLink) ''warning'' s3
                           else setStatus r [] s3)
                 in Inr (s4\<lparr>links := butlast (links s4)\<rparr>))))"

text \<open>
  \<^verbatim>\<open>exitingNode.info.displayArgs[state.n_ - 1]\<close> is \<^verbatim>\<open>undefined\<close> when
  \<^verbatim>\<open>n_\<close> is \<^verbatim>\<open>0\<close> or \<^verbatim>\<open>undefined\<close>. \<^verbatim>\<open>exitNode\<close> runs after
  \<^verbatim>\<open>exitLink\<close> has read \<^verbatim>\<open>state.value\<close>, so the value is there; a missing
  exiting node or value is a \<^verbatim>\<open>TypeError\<close>.
\<close>

definition exitNode :: "formatOutput \<Rightarrow> istate \<Rightarrow> nat option \<Rightarrow> updater \<Rightarrow> error + updater" where
  "exitNode fo st exiting s =
     (case exiting of
        None \<Rightarrow> Inl TypeError
      | Some e \<Rightarrow>
          (case val st of
             None \<Rightarrow> Inl TypeError
           | Some v \<Rightarrow>
              (let originalIdentifier =
                     (if nArgs st = 0 then None else at (displayArgs (heap s e)) (nArgs st - 1));
                   returnValue = interpreterIdentifier fo v originalIdentifier;
                   s1 = s\<lparr>heap := (heap s)(e := (heap s e)
                           \<lparr>displayName := ''return ('' @ returnValue @ '')''\<rparr>)\<rparr>
               in Inr (s1\<lparr>nodes := e # butlast (nodes s1),
                           rootNodeIndex := rootNodeIndex s1 + 1\<rparr>))))"

text \<open>
  Called only when \<^verbatim>\<open>rootNodeIndex > maxAllowedReturnNodes\<close>, so the subtractions stay
  in the naturals.
\<close>

definition removeOldestReturned :: "nat \<Rightarrow> updater \<Rightarrow> updater" where
  "removeOldestReturned maxAllowedReturnNodes s =
     (let itemsToRemoveCount = rootNodeIndex s - maxAllowedReturnNodes;
          removalStartIndex = rootNodeIndex s - itemsToRemoveCount;
          s1 = (if length (nodes s) > 1
                then s\<lparr>links := splice removalStartIndex itemsToRemoveCount (links s)\<rparr>
                else s)
      in s1\<lparr>nodes := splice removalStartIndex itemsToRemoveCount (nodes s1),
             rootNodeIndex := rootNodeIndex s1 - itemsToRemoveCount\<rparr>)"

definition removeExitingFunction ::
    "formatOutput \<Rightarrow> istate \<Rightarrow> nat \<Rightarrow> updater \<Rightarrow> error + (updater \<times> bool)" where
  "removeExitingFunction fo st maxAllowedReturnNodes s =
     (if isSupportedReturnToCaller st then
        (case isNotExitingRootNode st s of
           Inl e \<Rightarrow> Inl e
         | Inr notRoot \<Rightarrow>
            if notRoot then
              (case (case lodash_last (links s) of
                       None \<Rightarrow> Inr s
                     | Some l \<Rightarrow>
                        (case exitLink st l s of
                           Inl e \<Rightarrow> Inl e
                         | Inr s1 \<Rightarrow>
                            (let s2 = s1\<lparr>exitingNode := lodash_last (scopeChain s1)\<rparr>
                             in exitNode fo st (exitingNode s2) s2))) of
                 Inl e \<Rightarrow> Inl e
               | Inr s3 \<Rightarrow>
                  (let s4 = s3\<lparr>assignmentWarningVar := None\<rparr>;
                       s5 = (if rootNodeIndex s4 > maxAllowedReturnNodes
                             then removeOldestReturned maxAllowedReturnNodes s4 else s4)
                   in Inr (s5, True)))
            else Inr (s, False))
      else Inr (s, False))"

subsection \<open>The update step\<close>

definition getVariablesInScope :: "istate \<Rightarrow> nat option \<Rightarrow> updater \<Rightarrow> updater" where
  "getVariablesInScope st updateNode s =
     (case scope st of
        None \<Rightarrow> s
      | Some keys \<Rightarrow>
          (let s1 = s\<lparr>updatedDisplayArgs := [], currentScope := keys\<rparr>
           in (case updateNode of
                 None \<Rightarrow> s1
               | Some u \<Rightarrow>
                   s1\<lparr>heap := (heap s1)(u := (heap s1 u)\<lparr>variablesDeclaredInScope := Some keys\<rparr>)\<rparr>)))"

definition updateParamsIdsFromCaller :: "istate \<Rightarrow> nat option \<Rightarrow> updater \<Rightarrow> error + updater" where
  "updateParamsIdsFromCaller st updateNode s =
     (case func st of
        None \<Rightarrow> Inr s
      | Some f \<Rightarrow>
          if \<not> nativeFunc f then
            (case updateNode of
               None \<Rightarrow> Inl TypeError
             | Some u \<Rightarrow> Inr (s\<lparr>heap := (heap s)(u := (heap s u)\<lparr>paramIds := Some (params f)\<rparr>)\<rparr>))
          else Inr s)"

definition isFunctionReturnUnassigned :: "istate \<Rightarrow> updater \<Rightarrow> error + (updater \<times> bool)" where
  "isFunctionReturnUnassigned st s =
     (case exitingNode s of
        None \<Rightarrow> Inr (s, False)
      | Some e \<Rightarrow>
          if ntype (node st) \<noteq> ''VariableDeclarator'' then
            (case callerNode (heap s e) of
               None \<Rightarrow> Inl TypeError
             | Some c \<Rightarrow>
                (case rootNode s of
                   None \<Rightarrow> Inl TypeError
                 | Some r \<Rightarrow>
                    (let s1 = setStatus c ''warning'' s;
                         s2 = incErrorCount r s1;
                         s3 = s2\<lparr>warning := Some (''Principle: Side effects'',
                                                   ''Function result is not assigned to a value'')\<rparr>
                     in Inr (s3\<lparr>exitingNode := None\<rparr>, True))))
          else Inr (s\<lparr>exitingNode := None\<rparr>, False))"

text \<open>
  The \<^verbatim>\<open>while\<close> loop of \<^verbatim>\<open>isVariableModifiedOutOfScope\<close>, started at the frame
  \<open>c\<close>. It returns the frame it stops at and \<^verbatim>\<open>varPresentInScope\<close>; the loop body
  reads \<^verbatim>\<open>callerNode.callerNode.info\<close>, which throws when the caller is
  \<^verbatim>\<open>null\<close>. A loop that does not end is the value \<open>None\<close>.
\<close>

partial_function (option) scopeWalk ::
    "(nat \<Rightarrow> info) \<Rightarrow> string option \<Rightarrow> nat \<Rightarrow> (error + (nat \<times> bool)) option" where
  "scopeWalk h x c =
     (let varPresentInScope = lodash_includes (variablesDeclaredInScope (h c)) x
      in if \<not> varPresentInScope \<or> callerNode (h c) \<noteq> None then
           (case callerNode (h c) of
              None \<Rightarrow> Some (Inl TypeError)
            | Some p \<Rightarrow> scopeWalk h x p)
         else Some (Inr (c, varPresentInScope)))"

text \<open>
  The result \<^verbatim>\<open>undefined\<close> of a step that is no completed assignment is \<open>False\<close>:
  the only use of the result is as an operand of \<^verbatim>\<open>||\<close>.
\<close>

definition isVariableModifiedOutOfScope ::
    "istate \<Rightarrow> nat \<Rightarrow> updater \<Rightarrow> (error + (updater \<times> bool)) option" where
  "isVariableModifiedOutOfScope st updateNode s =
     (if ntype (node st) = ''AssignmentExpression'' \<and> doneLeft st \<and> doneRight st then
        (let assignedExpression = left_name (node st);
             finish = (\<lambda>s'. Some (Inr (s'\<lparr>assignmentWarningVar := Some assignedExpression\<rparr>,
                                         assignmentWarningVar s' \<noteq> Some assignedExpression)))
         in if \<not> lodash_includes (variablesDeclaredInScope (heap s updateNode)) assignedExpression then
              (case scopeWalk (heap s) assignedExpression updateNode of
                 None \<Rightarrow> None
               | Some (Inl e) \<Rightarrow> Some (Inl e)
               | Some (Inr (found, varPresentInScope)) \<Rightarrow>
                  (case rootNode s of
                     None \<Rightarrow> Some (Inl TypeError)
                   | Some r \<Rightarrow>
                      if varPresentInScope then
                        finish ((setStatus found ''warning''
                                  (setStatus updateNode ''warning'' (incErrorCount r s)))
                                \<lparr>warning := Some (''Principle: Side effects'',
                                    ''Function has mutated variable in another scope'')\<rparr>)
                      else
                        finish ((setStatus updateNode ''failure'' (incErrorCount r s))
                                \<lparr>warning := Some (''Principle: Side effects'',
                                    ''Function refers to an external variable that does not exist in the scope chain'')\<rparr>)))
            else
              finish ((setStatus updateNode ''notice'' s)
                      \<lparr>warning := Some (''Principle: Immutability'',
                          ''Function has changed a variable in scope after creation'')\<rparr>))
      else Some (Inr (s, False)))"

text \<open>\<^verbatim>\<open>xs[i] = v\<close> on an array that may have holes: writing past the end leaves holes.\<close>

definition setAt :: "'a option list \<Rightarrow> nat \<Rightarrow> 'a \<Rightarrow> 'a option list" where
  "setAt xs i v =
     (if i < length xs then xs[i := Some v]
      else xs @ replicate (i - length xs) None @ [Some v])"

text \<open>
  The body of \<^verbatim>\<open>updatedDisplayArgs.forEach\<close> at one index: \<^verbatim>\<open>forEach\<close> skips a
  hole, and an empty string is falsy.
\<close>

definition argChanged :: "string option \<times> string \<Rightarrow> bool" where
  "argChanged p = (case fst p of None \<Rightarrow> False | Some updateArg \<Rightarrow> updateArg \<noteq> [] \<and> updateArg \<noteq> snd p)"

definition refreshArg :: "string option \<times> string \<Rightarrow> string" where
  "refreshArg p =
     (case fst p of
        None \<Rightarrow> snd p
      | Some updateArg \<Rightarrow> if updateArg \<noteq> [] \<and> updateArg \<noteq> snd p then updateArg else snd p)"

definition doesDisplayNameNeedUpdating ::
    "formatOutput \<Rightarrow> istate \<Rightarrow> nat \<Rightarrow> updater \<Rightarrow> error + (updater \<times> bool)" where
  "doesDisplayNameNeedUpdating fo st updateNode s =
     (if doneCallee st \<and> \<not> doneExec st then
        (case (if nArgs st \<noteq> 0 then
                 (case val st of
                    None \<Rightarrow> Inl TypeError
                  | Some v \<Rightarrow>
                     (let argIndex = nArgs st - 1;
                          identifier = (case at (argumentIds (heap s updateNode)) argIndex of
                                          None \<Rightarrow> None | Some a \<Rightarrow> a)
                      in Inr (s\<lparr>updatedDisplayArgs := setAt (updatedDisplayArgs s) argIndex
                                  (if isPrimitive v then interpreterIdentifier fo v None
                                   else interpreterIdentifier fo v identifier)\<rparr>)))
               else Inr s) of
           Inl e \<Rightarrow> Inl e
         | Inr s1 \<Rightarrow>
            (let dargs = displayArgs (heap s1 updateNode)
             in if length dargs \<noteq> 0 \<and> length (updatedDisplayArgs s1) = length dargs then
                  (let pairs = zip (updatedDisplayArgs s1) dargs;
                       dargs' = map refreshArg pairs;
                       i = heap s1 updateNode
                   in Inr (s1\<lparr>heap := (heap s1)(updateNode := i\<lparr>displayArgs := dargs',
                                  displayName := displayNameOf fo (name i) dargs' (recursion s1)\<rparr>)\<rparr>,
                           list_ex argChanged pairs))
                else Inr (s1, False)))
      else Inr (s, False))"

text \<open>
  \<^verbatim>\<open>isFunctionReturnUnassigned(updateNode) || isVariableModifiedOutOfScope(updateNode) ||
  doesDisplayNameNeedUpdating(updateNode)\<close>: \<^verbatim>\<open>||\<close> evaluates its right operand only
  when the left one is falsy.
\<close>

definition updateEnteringFunction ::
    "formatOutput \<Rightarrow> istate \<Rightarrow> updater \<Rightarrow> (error + (updater \<times> bool)) option" where
  "updateEnteringFunction fo st s =
     (let updateNode = lodash_last (scopeChain s);
          s1 = getVariablesInScope st updateNode s
      in (case updateParamsIdsFromCaller st updateNode s1 of
            Inl e \<Rightarrow> Some (Inl e)
          | Inr s2 \<Rightarrow>
             (case updateNode of
                None \<Rightarrow> Some (Inr (s2, False))
              | Some u \<Rightarrow>
                 (case isFunctionReturnUnassigned st s2 of
                    Inl e \<Rightarrow> Some (Inl e)
                  | Inr (s3, c1) \<Rightarrow>
                     if c1 then Some (Inr (s3, True))
                     else
                       (case isVariableModifiedOutOfScope st u s3 of
                          None \<Rightarrow> None
                        | Some (Inl e) \<Rightarrow> Some (Inl e)
                        | Some (Inr (s4, c2)) \<Rightarrow>
                           if c2 then Some (Inr (s4, True))
                           else Some (doesDisplayNameNeedUpdating fo st u s4))))))"

subsection \<open>The exposed operations\<close>

text \<open>
  \<^verbatim>\<open>action\<close> returns \<^verbatim>\<open>[doneAction, warning]\<close>. The helper functions read the
  closure variable \<^verbatim>\<open>state\<close>, which \<^verbatim>\<open>action\<close> has just set to the state it passes
  them; the model passes it as \<open>st\<close>.
\<close>

definition action ::
    "formatOutput \<Rightarrow> interpreter \<Rightarrow> nat \<Rightarrow> updater
       \<Rightarrow> (error + (updater \<times> bool \<times> (string \<times> string) option)) option" where
  "action fo stateStack maxAllowedReturnNodes s =
     (let s0 = s\<lparr>warning := None, state := at stateStack 0\<rparr>;
          ret = (\<lambda>s' doneAction. Some (Inr (s', doneAction, warning s')))
      in (case (state s0, prevState s0) of
            (Some st, Some _) \<Rightarrow>
              (case addEnteringFunction fo st s0 of
                 Inl e \<Rightarrow> Some (Inl e)
               | Inr (s1, a) \<Rightarrow>
                  if a then ret s1 True
                  else
                    (case removeExitingFunction fo st maxAllowedReturnNodes s1 of
                       Inl e \<Rightarrow> Some (Inl e)
                     | Inr (s2, b) \<Rightarrow>
                        if b then ret s2 True
                        else
                          (case updateEnteringFunction fo st s2 of
                             None \<Rightarrow> None
                           | Some (Inl e) \<Rightarrow> Some (Inl e)
                           | Some (Inr (s3, c)) \<Rightarrow> ret s3 c)))
          | _ \<Rightarrow> ret s0 False))"

definition setPrevState :: "updater \<Rightarrow> updater" where
  "setPrevState s = (case state s of None \<Rightarrow> s | Some st \<Rightarrow> s\<lparr>prevState := Some st\<rparr>)"

definition getRepresentedNode :: "updater \<Rightarrow> error + astnode" where
  "getRepresentedNode s =
     (case prevState s of
        None \<Rightarrow> Inl TypeError
      | Some p \<Rightarrow>
          if ntype (node p) = ''ReturnStatement'' then Inr (node p)
          else (case state s of None \<Rightarrow> Inl TypeError | Some st \<Rightarrow> Inr (node st)))"

definition finish :: "updater \<Rightarrow> error + updater" where
  "finish s = (case rootNode s of None \<Rightarrow> Inl TypeError | Some r \<Rightarrow> Inr (setStatus r ''finished'' s))"

text \<open>
  Modelled from the spec: the driver's loop (the sequencer that owns the updater is not
  among the sources). It advances the updater once per interpreter step, in order and
  without gaps: \<^verbatim>\<open>action\<close> on the interpreter with the
  \<^verbatim>\<open>maxAllowedReturnNodes\<close> of that moment, then \<^verbatim>\<open>nextStep\<close>. An exception
  leaves \<^verbatim>\<open>action\<close> and ends the run.
\<close>

fun steps :: "formatOutput \<Rightarrow> (interpreter \<times> nat) list \<Rightarrow> updater \<Rightarrow> (error + updater) option" where
  "steps fo [] s = Some (Inr s)"
| "steps fo ((stateStack, maxAllowedReturnNodes) # rest) s =
     (case action fo stateStack maxAllowedReturnNodes s of
        None \<Rightarrow> None
      | Some (Inl e) \<Rightarrow> Some (Inl e)
      | Some (Inr (s', _)) \<Rightarrow> steps fo rest (setPrevState s'))"

subsection \<open>Concrete traces\<close>

text \<open>
  A formatter and interpreter states to run the updater on: a call \<open>f(args)\<close> being
  entered, the same call returning a value, a completed assignment to \<open>x\<close>, and a state
  that is none of them.
\<close>

definition plainFormat :: formatOutput where
  "plainFormat = \<lparr>getArgIdentifiers = (\<lambda>n. map Some (arguments n)),
     getDisplayArgs = arguments,
     displayNameOf = (\<lambda>nm args rec. nm),
     interpreterIdentifier = (\<lambda>v x. case data v of None \<Rightarrow> ''undefined'' | Some d \<Rightarrow> d)\<rparr>"

definition otherState :: "string \<Rightarrow> istate" where
  "otherState ty = \<lparr>node = \<lparr>ntype = ty, callee = None, arguments = [], left_name = None\<rparr>,
     doneCallee = False, doneExec = False, doneLeft = False, doneRight = False, nArgs = 0,
     val = None, scope = None, func = None\<rparr>"

definition callNode :: "string \<Rightarrow> string list \<Rightarrow> astnode" where
  "callNode f args = \<lparr>ntype = ''CallExpression'',
     callee = Some \<lparr>ctype = ''Identifier'', cname = Some f, cid_name = None\<rparr>,
     arguments = args, left_name = None\<rparr>"

definition enterState :: "string \<Rightarrow> string list \<Rightarrow> istate" where
  "enterState f args = (otherState [])\<lparr>node := callNode f args\<rparr>"

definition returnState :: "string \<Rightarrow> string list \<Rightarrow> string option \<Rightarrow> istate" where
  "returnState f args d = (otherState [])\<lparr>node := callNode f args, doneCallee := True,
     doneExec := True, val := Some \<lparr>isPrimitive = True, data = d\<rparr>\<rparr>"

definition assignState :: "string \<Rightarrow> istate" where
  "assignState x = (otherState [])\<lparr>node := \<lparr>ntype = ''AssignmentExpression'', callee = None,
     arguments = [], left_name = Some x\<rparr>, doneLeft := True, doneRight := True\<rparr>"

definition startStep :: "interpreter \<times> nat" where
  "startStep = ([otherState ''Program''], 1)"

definition entering :: "string \<Rightarrow> string list \<Rightarrow> nat \<Rightarrow> interpreter \<times> nat" where
  "entering f args m = ([enterState f args], m)"

definition returning :: "string \<Rightarrow> string option \<Rightarrow> nat \<Rightarrow> interpreter \<times> nat" where
  "returning f d m = ([returnState f [] d], m)"

definition scopeStep :: "string list \<Rightarrow> interpreter \<times> nat" where
  "scopeStep keys = ([(otherState ''BlockStatement'')\<lparr>scope := Some keys\<rparr>], 1)"

definition assigning :: "string \<Rightarrow> interpreter \<times> nat" where
  "assigning x = ([assignState x], 1)"

text \<open>What a run leaves in one closure variable, or the exception that ended it.\<close>

definition outcome :: "('s \<Rightarrow> 'a) \<Rightarrow> (error + 's) option \<Rightarrow> (error + 'a) option" where
  "outcome f r = map_option (map_sum id f) r"

definition statuses :: "updater \<Rightarrow> string list" where
  "statuses s = map (\<lambda>i. status (heap s i)) [0..<nextId s]"

definition funcStep :: "string list \<Rightarrow> string list \<Rightarrow> interpreter \<times> nat" where
  "funcStep ps keys = ([(otherState ''BlockStatement'')\<lparr>scope := Some keys,
      func := Some \<lparr>nativeFunc = False, params = ps\<rparr>\<rparr>], 1)"

text \<open>The state a trace leaves the updater in (the initial state if the run throws).\<close>

definition reached :: "(interpreter \<times> nat) list \<Rightarrow> updater" where
  "reached tr = (case steps plainFormat tr VisibleFunctionUpdater of
                   Some (Inr s) \<Rightarrow> s | _ \<Rightarrow> VisibleFunctionUpdater)"

text \<open>A check returns (it neither throws nor loops); the state and the flag it returns.\<close>

definition returns :: "(error + 'a) option \<Rightarrow> bool" where
  "returns r = (case r of Some (Inr _) \<Rightarrow> True | _ \<Rightarrow> False)"



text \<open>\<open>root\<close> has called \<open>a\<close>.\<close>

definition rootCallsA :: updater where
  "rootCallsA = reached [startStep, entering ''root'' [] 1, entering ''a'' [] 1]"

text \<open>\<open>root\<close> has called \<open>f(varA)\<close>, and the body of \<open>f\<close>, with parameter \<open>x\<close>, is entered.\<close>

definition insideF :: updater where
  "insideF = reached [startStep, entering ''root'' [] 1, entering ''f'' [''varA''] 1,
     funcStep [''x''] [''x'']]"




subsection \<open>Well-nested traces\<close>

text \<open>
  The exit step that \<^verbatim>\<open>isNotExitingRootNode\<close> holds back once a root named \<open>rn\<close>
  exists: the call of a function expression whose own name is the root's.
\<close>

definition rootWrapperExit :: "string \<Rightarrow> istate \<Rightarrow> bool" where
  "rootWrapperExit rn st =
     (case callee (node st) of
        None \<Rightarrow> False
      | Some c \<Rightarrow> ctype c = ''FunctionExpression'' \<and> cid_name c = Some rn)"

text \<open>
  A trace is well nested when no exit step other than the held-back one comes while the
  root is the only open call. The phase of a run is: no state recorded yet; no call
  entered yet; or a root named \<open>rn\<close> with \<open>d\<close> calls entered above it and not yet
  exited. A step with an empty stack is ignored, as \<^verbatim>\<open>action\<close> ignores it.
\<close>

datatype phase = NotStarted | NoRoot | Open string nat

fun advance :: "phase \<Rightarrow> istate \<Rightarrow> phase option" where
  "advance NotStarted st = Some NoRoot"
| "advance NoRoot st =
     (if isSupportedFunctionCall st then
        (case calleeNameOf (node st) of Inl e \<Rightarrow> Some NoRoot | Inr rn \<Rightarrow> Some (Open rn 0))
      else Some NoRoot)"
| "advance (Open rn d) st =
     (if isSupportedFunctionCall st then Some (Open rn (Suc d))
      else if isSupportedReturnToCaller st \<and> \<not> rootWrapperExit rn st then
        (if 1 \<le> d then Some (Open rn (d - 1)) else None)
      else Some (Open rn d))"

fun wellNested :: "phase \<Rightarrow> (interpreter \<times> nat) list \<Rightarrow> bool" where
  "wellNested ph [] = True"
| "wellNested ph ((stateStack, m) # rest) =
     (case at stateStack 0 of
        None \<Rightarrow> wellNested ph rest
      | Some st \<Rightarrow>
         (case advance ph st of
            None \<Rightarrow> False
          | Some ph' \<Rightarrow> wellNested ph' rest))"

text \<open>
  What the update step leaves alone, and what holds of the updater in each phase: the
  root is node \<open>0\<close>, it is the only node of type \<open>root\<close>, and it sits in the node
  list at index \<^verbatim>\<open>rootNodeIndex\<close>, with at least \<open>d\<close> nodes behind it.
\<close>

definition sameGraph :: "updater \<Rightarrow> updater \<Rightarrow> bool" where
  "sameGraph s s' \<longleftrightarrow>
     nodes s' = nodes s \<and> links s' = links s \<and> scopeChain s' = scopeChain s \<and>
     rootNode s' = rootNode s \<and> rootNodeIndex s' = rootNodeIndex s \<and>
     nextId s' = nextId s \<and> prevState s' = prevState s \<and>
     linkIndexCounter s' = linkIndexCounter s \<and>
     (\<forall>i. itype (heap s' i) = itype (heap s i) \<and> name (heap s' i) = name (heap s i))"

fun phaseInv :: "phase \<Rightarrow> updater \<Rightarrow> bool" where
  "phaseInv NotStarted s \<longleftrightarrow>
     prevState s = None \<and> nodes s = [] \<and> links s = [] \<and> rootNode s = None \<and>
     rootNodeIndex s = 0 \<and> nextId s = 0"
| "phaseInv NoRoot s \<longleftrightarrow>
     prevState s \<noteq> None \<and> nodes s = [] \<and> links s = [] \<and> rootNode s = None \<and>
     rootNodeIndex s = 0 \<and> nextId s = 0"
| "phaseInv (Open rn d) s \<longleftrightarrow>
     prevState s \<noteq> None \<and> rootNode s = Some 0 \<and> 0 < nextId s \<and>
     name (heap s 0) = rn \<and> itype (heap s 0) = ''root'' \<and>
     (\<forall>i. 0 < i \<and> i < nextId s \<longrightarrow> itype (heap s i) = ''function'') \<and>
     rootNodeIndex s + d < length (nodes s) \<and> nodes s ! rootNodeIndex s = 0"

text \<open>The nodes created so far that have type \<open>root\<close>.\<close>

definition rootTyped :: "updater \<Rightarrow> nat list" where
  "rootTyped s = filter (\<lambda>i. itype (heap s i) = ''root'') [0..<nextId s]"

text \<open>
  The call of the wrapper \<^verbatim>\<open>(function Program() { ... })()\<close>, entered and done; a
  program in the wrapper that calls \<open>a\<close>, which returns \<open>1\<close>, and \<open>b\<close>, which returns
  nothing; and the program \<^verbatim>\<open>root(); c()\<close> without a wrapper, where \<open>root\<close> calls \<open>a\<close>,
  with the limit \<open>m\<close> from the exit of \<open>root\<close> on.
\<close>

definition wrapperStep :: "bool \<Rightarrow> nat \<Rightarrow> interpreter \<times> nat" where
  "wrapperStep done m =
     ([(otherState [])\<lparr>node := \<lparr>ntype = ''CallExpression'',
          callee = Some \<lparr>ctype = ''FunctionExpression'', cname = None, cid_name = Some ''Program''\<rparr>,
          arguments = [], left_name = None\<rparr>,
        doneCallee := done, doneExec := done,
        val := (if done then Some \<lparr>isPrimitive = True, data = None\<rparr> else None)\<rparr>], m)"

definition wrappedProgram :: "(interpreter \<times> nat) list" where
  "wrappedProgram = [startStep, wrapperStep False 0, entering ''a'' [] 0,
     returning ''a'' (Some ''1'') 0, entering ''b'' [] 0, returning ''b'' None 0,
     wrapperStep True 0]"

definition bareProgram :: "nat \<Rightarrow> (interpreter \<times> nat) list" where
  "bareProgram m = [startStep, entering ''root'' [] 1, entering ''a'' [] 1,
     returning ''a'' (Some ''1'') 1, returning ''root'' None m, entering ''c'' [] m]"

text \<open>
  An exit step that drops a link: it is processed above a root and carries no value
  (the test of \<^verbatim>\<open>exitLink\<close> fails). A trace is valued when it is well nested and no
  step of it drops a link.
\<close>

definition returnsValue :: "istate \<Rightarrow> bool" where
  "returnsValue st = (case val st of None \<Rightarrow> False | Some v \<Rightarrow> explicitReturn st v)"

definition dropsLink :: "phase \<Rightarrow> istate \<Rightarrow> bool" where
  "dropsLink ph st =
     (case ph of
        Open rn d \<Rightarrow>
          \<not> isSupportedFunctionCall st \<and> isSupportedReturnToCaller st \<and>
          \<not> rootWrapperExit rn st \<and> \<not> returnsValue st
      | _ \<Rightarrow> False)"

fun valued :: "phase \<Rightarrow> (interpreter \<times> nat) list \<Rightarrow> bool" where
  "valued ph [] = True"
| "valued ph ((stateStack, m) # rest) =
     (case at stateStack 0 of
        None \<Rightarrow> valued ph rest
      | Some st \<Rightarrow>
         (case advance ph st of
            None \<Rightarrow> False
          | Some ph' \<Rightarrow> \<not> dropsLink ph st \<and> valued ph' rest))"

text \<open>The count of links and nodes in each phase.\<close>

definition countInv :: "phase \<Rightarrow> updater \<Rightarrow> bool" where
  "countInv ph s \<longleftrightarrow>
     phaseInv ph s \<and>
     (case ph of
        Open rn d \<Rightarrow> scopeChain s \<noteq> [] \<and> length (links s) + 1 = length (nodes s)
      | _ \<Rightarrow> scopeChain s = [])"

text \<open>
  A program in the wrapper where \<open>a\<close> calls \<open>b\<close>, both return a value, and \<open>c\<close> is called
  and returns a value.
\<close>

definition valuedProgram :: "(interpreter \<times> nat) list" where
  "valuedProgram = [startStep, wrapperStep False 1, entering ''a'' [] 1, entering ''b'' [] 1,
     returning ''b'' (Some ''2'') 1, returning ''a'' (Some ''1'') 1, entering ''c'' [] 1,
     returning ''c'' (Some ''3'') 1, wrapperStep True 1]"

text \<open>The error counts of the nodes created so far.\<close>

definition errorCounts :: "updater \<Rightarrow> nat list" where
  "errorCounts s = map (\<lambda>i. errorCount (heap s i)) [0..<nextId s]"

text \<open>
  In the wrapper, \<open>a\<close> calls \<open>b\<close> and \<open>b\<close> exits without a value while no returned
  node may stay (\<^verbatim>\<open>maxAllowedReturnNodes\<close> is \<open>0\<close>).
\<close>

definition lostLinkProgram :: "(interpreter \<times> nat) list" where
  "lostLinkProgram = [startStep, wrapperStep False 0, entering ''a'' [] 0, entering ''b'' [] 0,
     returning ''b'' None 0]"

text \<open>
  In the wrapper, \<open>a\<close> is called; \<open>a\<close> calls \<open>b\<close>; \<open>b\<close> returns \<open>2\<close> while one
  returned node may stay.
\<close>

definition outerCalls :: "(interpreter \<times> nat) list" where
  "outerCalls = [startStep, wrapperStep False 1, entering ''a'' [] 1]"

definition nestedCalls :: "(interpreter \<times> nat) list" where
  "nestedCalls = outerCalls @ [entering ''b'' [] 1]"

definition nestedProgram :: "(interpreter \<times> nat) list" where
  "nestedProgram = nestedCalls @ [returning ''b'' (Some ''2'') 1]"










text \<open>
  What holds of every state a run reaches: where there is a link there is a frame, where
  there is a frame a previous state has been recorded, the frames are nodes created
  before, and the two ends of a link differ.
\<close>

definition linkInv :: "updater \<Rightarrow> bool" where
  "linkInv s \<longleftrightarrow>
     (links s \<noteq> [] \<longrightarrow> scopeChain s \<noteq> []) \<and>
     (scopeChain s \<noteq> [] \<longrightarrow> prevState s \<noteq> None) \<and>
     (\<forall>n \<in> set (scopeChain s). n < nextId s) \<and>
     (\<forall>l \<in> set (links s). source l \<noteq> target l)"

declare scopeWalk.simps [code]

section \<open>Properties\<close>

subsection \<open>The first invocation of \<^verbatim>\<open>action\<close>\<close>

text \<open>
  C10. As long as no previous state has been recorded (or the interpreter's stack is
  empty), \<^verbatim>\<open>action\<close> only clears the warning and records the current state: the node
  list, the link list, the scope chain, the counters and the store are those of before,
  and the result is \<^verbatim>\<open>[false, null]\<close>.
\<close>

theorem action_first_invocation:
  assumes "prevState s = None \<or> stateStack = []"
  shows "action fo stateStack maxAllowedReturnNodes s =
           Some (Inr (s\<lparr>warning := None, state := at stateStack 0\<rparr>, False, None))"
  using assms by (auto simp: action_def at_def split: option.splits)

theorem action_first_invocation_witness:
  "(prevState VisibleFunctionUpdater = None \<or> [enterState ''root'' []] = []) \<and>
   action plainFormat [enterState ''root'' []] 1 VisibleFunctionUpdater =
     Some (Inr (VisibleFunctionUpdater\<lparr>warning := None, state := at [enterState ''root'' []] 0\<rparr>,
                False, None))"
  using action_first_invocation [of VisibleFunctionUpdater "[enterState ''root'' []]" plainFormat 1]
  by (simp add: VisibleFunctionUpdater_def)

subsection \<open>The scope chain\<close>

text \<open>
  C1 says that the scope chain holds exactly the nodes entered and not yet exited, a
  node being popped at its exit. The code pushes on entry, and nothing pops: after
  \<open>root\<close> calls \<open>a\<close> and \<open>a\<close> returns, node \<open>1\<close> (\<open>a\<close>) has been moved to the front of the node list as a
  returned node, and it is still the top of the scope chain. When \<open>a\<close> calls \<open>b\<close> and
  both return, the exit of \<open>a\<close> takes \<open>b\<close>, still the top of the scope chain, for the
  exiting node: \<open>a\<close> (node \<open>1\<close>) is popped from the node list and \<open>b\<close> (node \<open>2\<close>) is
  put in front a second time.
\<close>

theorem scopeChain_keeps_exited_node:
  "outcome scopeChain (steps plainFormat
      [startStep, entering ''root'' [] 1, entering ''a'' [] 1, returning ''a'' (Some ''1'') 1]
      VisibleFunctionUpdater) = Some (Inr [0, 1]) \<and>
   outcome nodes (steps plainFormat
      [startStep, entering ''root'' [] 1, entering ''a'' [] 1, returning ''a'' (Some ''1'') 1]
      VisibleFunctionUpdater) = Some (Inr [1, 0]) \<and>
   outcome rootNodeIndex (steps plainFormat
      [startStep, entering ''root'' [] 1, entering ''a'' [] 1, returning ''a'' (Some ''1'') 1]
      VisibleFunctionUpdater) = Some (Inr 1) \<and>
   outcome scopeChain (steps plainFormat
      [startStep, entering ''root'' [] 5, entering ''a'' [] 5, entering ''b'' [] 5,
       returning ''b'' (Some ''2'') 5, returning ''a'' (Some ''1'') 5]
      VisibleFunctionUpdater) = Some (Inr [0, 1, 2]) \<and>
   outcome nodes (steps plainFormat
      [startStep, entering ''root'' [] 5, entering ''a'' [] 5, entering ''b'' [] 5,
       returning ''b'' (Some ''2'') 5, returning ''a'' (Some ''1'') 5]
      VisibleFunctionUpdater) = Some (Inr [2, 2, 0])"
  by code_simp

subsection \<open>The count of links and nodes\<close>

text \<open>
  C2 says that the links are one fewer than the nodes while the scope chain is not
  empty, whatever step was taken; the comment in \<^verbatim>\<open>removeOldestReturned\<close> says the
  same (\<^verbatim>\<open>links always have one less item than nodes\<close>) and its splice of the links
  at the indices of the nodes relies on it. The exit without a value breaks it: after
  \<open>root\<close> calls \<open>a\<close> and \<open>a\<close> exits without a value, the scope chain is not empty,
  there are two nodes and there is no link. The eviction then splices the wrong links:
  in the wrapper, \<open>a\<close> calls \<open>b\<close> and \<open>b\<close> exits without a value under the limit \<open>0\<close>;
  the eviction of \<open>b\<close> takes the calling link of \<open>a\<close>, which has not returned, and
  leaves two nodes and no link.
\<close>

theorem link_count_after_no_return_exit:
  "outcome scopeChain (steps plainFormat
      [startStep, entering ''root'' [] 1, entering ''a'' [] 1, returning ''a'' None 1]
      VisibleFunctionUpdater) = Some (Inr [0, 1]) \<and>
   outcome nodes (steps plainFormat
      [startStep, entering ''root'' [] 1, entering ''a'' [] 1, returning ''a'' None 1]
      VisibleFunctionUpdater) = Some (Inr [1, 0]) \<and>
   outcome links (steps plainFormat
      [startStep, entering ''root'' [] 1, entering ''a'' [] 1, returning ''a'' None 1]
      VisibleFunctionUpdater) = Some (Inr []) \<and>
   outcome links (steps plainFormat
      [startStep, wrapperStep False 0, entering ''a'' [] 0, entering ''b'' [] 0]
      VisibleFunctionUpdater)
     = Some (Inr [\<lparr>source = 0, target = 1, lstate = ''calling'', linkIndex = 0\<rparr>,
                  \<lparr>source = 1, target = 2, lstate = ''calling'', linkIndex = 1\<rparr>]) \<and>
   outcome nodes (steps plainFormat
      [startStep, wrapperStep False 0, entering ''a'' [] 0, entering ''b'' [] 0,
       returning ''b'' None 0]
      VisibleFunctionUpdater) = Some (Inr [0, 1]) \<and>
   outcome links (steps plainFormat
      [startStep, wrapperStep False 0, entering ''a'' [] 0, entering ''b'' [] 0,
       returning ''b'' None 0]
      VisibleFunctionUpdater) = Some (Inr [])"
  by code_simp

subsection \<open>The walk over the callers of a frame\<close>

text \<open>
  C3 says that the walk over the callers stops at the first frame that declares the
  name, or treats the name as not found when the callers are exhausted, without reading
  a \<^verbatim>\<open>null\<close> caller. In the code the loop goes on while the name is not found
  \<^emph>\<open>or\<close> there is a caller. An assignment to \<open>x\<close> in the root frame, which declares
  \<open>y\<close> only, ends in a
  \<^verbatim>\<open>TypeError\<close>: the loop reads \<^verbatim>\<open>callerNode.callerNode.info\<close> of the root. So
  does an assignment to \<open>x\<close> in \<open>b\<close>, called by \<open>a\<close>, which declares \<open>x\<close>, called by a
  root that does not: the walk does not stop at \<open>a\<close>. When the root declares \<open>x\<close> too,
  the walk ends at the root and marks it, and \<open>a\<close> keeps its status.
\<close>

theorem scope_walk_dereferences_null:
  "outcome nodes (steps plainFormat
      [startStep, entering ''root'' [] 1, scopeStep [''y''], assigning ''x'']
      VisibleFunctionUpdater) = Some (Inl TypeError) \<and>
   outcome nodes (steps plainFormat
      [startStep, entering ''root'' [] 1, scopeStep [''y''], entering ''a'' [] 1, scopeStep [''x''],
       entering ''b'' [] 1, scopeStep [], assigning ''x'']
      VisibleFunctionUpdater) = Some (Inl TypeError) \<and>
   outcome statuses (steps plainFormat
      [startStep, entering ''root'' [] 1, scopeStep [''x''], entering ''a'' [] 1, scopeStep [''x''],
       entering ''b'' [] 1, scopeStep [], assigning ''x'']
      VisibleFunctionUpdater) = Some (Inr [''warning'', ''normal'', ''warning''])"
  by code_simp

text \<open>
  On a store where every caller was created before its callee, the loop ends, and it
  ends in one of two ways only: with a \<^verbatim>\<open>TypeError\<close>, or at a frame that has no
  caller and declares the name.
\<close>

lemma scopeWalk_result:
  assumes "\<forall>i p. callerNode (h i) = Some p \<longrightarrow> p < i"
  shows "scopeWalk h x c = Some (Inl TypeError) \<or>
         (\<exists>f. scopeWalk h x c = Some (Inr (f, True)) \<and> callerNode (h f) = None \<and>
              lodash_includes (variablesDeclaredInScope (h f)) x)"
proof (induction c rule: less_induct)
  case (less c)
  show ?case
  proof (cases "callerNode (h c)")
    case None
    with scopeWalk.simps [of h x c] show ?thesis
      by (auto simp: Let_def)
  next
    case (Some p)
    with assms have "p < c" by blast
    from less [OF this] Some scopeWalk.simps [of h x c] show ?thesis
      by (simp add: Let_def)
  qed
qed

subsection \<open>Argument provenance\<close>

lemma indexOf_None: "indexOf xs a = None \<longleftrightarrow> a \<notin> set xs"
  by (induction xs) auto

lemma indexOf_Some:
  "indexOf xs a = Some k \<Longrightarrow> k < length xs \<and> xs ! k = a \<and> (\<forall>j<k. xs ! j \<noteq> a)"
proof (induction xs arbitrary: k)
  case Nil
  then show ?case by simp
next
  case (Cons x xs)
  show ?case
  proof (cases "x = a")
    case True
    with Cons.prems show ?thesis by simp
  next
    case False
    with Cons.prems obtain k' where k': "indexOf xs a = Some k'" "k = Suc k'"
      by auto
    from Cons.IH [OF k'(1)] False k'(2) show ?thesis
      by (auto simp: nth_Cons split: nat.splits)
  qed
qed

lemma substituteArg_cases:
  "(arg = None \<longrightarrow> substituteArg ps cargs arg = None) \<and>
   (\<forall>a. arg = Some a \<longrightarrow>
      (a \<notin> set ps \<longrightarrow> substituteArg ps cargs arg = Some a) \<and>
      (a \<in> set ps \<longrightarrow> (\<exists>k<length ps. ps ! k = a \<and> (\<forall>j<k. ps ! j \<noteq> a) \<and>
          substituteArg ps cargs arg = (if k < length cargs then cargs ! k else None))))"
proof (cases arg)
  case None
  then show ?thesis by (simp add: substituteArg_def)
next
  case arg: (Some a)
  show ?thesis
  proof (cases "indexOf ps a")
    case None
    moreover from None have "a \<notin> set ps" by (simp add: indexOf_None)
    ultimately show ?thesis using arg by (simp add: substituteArg_def)
  next
    case (Some k)
    note ix = indexOf_Some [OF Some]
    from Some have "a \<in> set ps" using indexOf_None [of ps a] by auto
    with arg Some ix show ?thesis
      by (auto simp: substituteArg_def at_def intro!: exI [of _ k])
  qed
qed

text \<open>
  C6. An entry step whose caller (the top of the scope chain) has recorded parameter
  names returns, and the new node's \<open>argumentIds\<close> are the raw argument identifiers of
  the call where each identifier that is a parameter name of the caller is replaced by
  the caller's own argument identifier at the first index of that parameter
  (\<^verbatim>\<open>undefined\<close> when the caller has no argument there); the other identifiers are
  kept. With caller parameters \<open>[x]\<close> and caller arguments \<open>[varA]\<close>, a nested call
  passing \<open>x\<close> gets \<open>[varA]\<close>.
\<close>

theorem entering_substitutes_caller_arguments:
  assumes "isSupportedFunctionCall st" and "calleeNameOf (node st) = Inr f"
    and "lodash_last (scopeChain s) = Some c" and "paramIds (heap s c) = Some ps"
  shows "\<exists>s'. addEnteringFunction fo st s = Inr (s', True) \<and>
           scopeChain s' = scopeChain s @ [nextId s] \<and>
           callerNode (heap s' (nextId s)) = Some c \<and>
           length (argumentIds (heap s' (nextId s))) = length (getArgIdentifiers fo (node st)) \<and>
           (\<forall>i < length (getArgIdentifiers fo (node st)).
              (getArgIdentifiers fo (node st) ! i = None \<longrightarrow>
                 argumentIds (heap s' (nextId s)) ! i = None) \<and>
              (\<forall>a. getArgIdentifiers fo (node st) ! i = Some a \<longrightarrow>
                 (a \<notin> set ps \<longrightarrow> argumentIds (heap s' (nextId s)) ! i = Some a) \<and>
                 (a \<in> set ps \<longrightarrow> (\<exists>k<length ps. ps ! k = a \<and> (\<forall>j<k. ps ! j \<noteq> a) \<and>
                    argumentIds (heap s' (nextId s)) ! i =
                      (if k < length (argumentIds (heap s c))
                       then argumentIds (heap s c) ! k else None)))))"
proof -
  let ?raw = "getArgIdentifiers fo (node st)"
  let ?new = "map (substituteArg ps (argumentIds (heap s c))) ?raw"
  obtain s' where s': "addEnteringFunction fo st s = Inr (s', True)"
    and sc: "scopeChain s' = scopeChain s @ [nextId s]"
    and cn: "callerNode (heap s' (nextId s)) = Some c"
    and args: "argumentIds (heap s' (nextId s)) = ?new"
    using assms
    by (auto simp: addEnteringFunction_def getCallLink_def Let_def split: prod.splits option.splits)
  have "\<forall>i < length ?raw.
          (?raw ! i = None \<longrightarrow> ?new ! i = None) \<and>
          (\<forall>a. ?raw ! i = Some a \<longrightarrow>
             (a \<notin> set ps \<longrightarrow> ?new ! i = Some a) \<and>
             (a \<in> set ps \<longrightarrow> (\<exists>k<length ps. ps ! k = a \<and> (\<forall>j<k. ps ! j \<noteq> a) \<and>
                ?new ! i = (if k < length (argumentIds (heap s c))
                            then argumentIds (heap s c) ! k else None))))"
    using substituteArg_cases [of _ ps "argumentIds (heap s c)"] by simp
  with s' sc cn args show ?thesis by simp
qed

theorem entering_substitutes_caller_arguments_witness:
  "isSupportedFunctionCall (enterState ''g'' [''x'']) \<and>
   calleeNameOf (node (enterState ''g'' [''x''])) = Inr ''g'' \<and>
   lodash_last (scopeChain insideF) = Some 1 \<and>
   paramIds (heap insideF 1) = Some [''x''] \<and>
   argumentIds (heap insideF 1) = [Some ''varA''] \<and>
   getArgIdentifiers plainFormat (node (enterState ''g'' [''x''])) = [Some ''x''] \<and>
   (\<exists>s'. addEnteringFunction plainFormat (enterState ''g'' [''x'']) insideF = Inr (s', True) \<and>
      argumentIds (heap s' (nextId insideF)) = [Some ''varA''])"
proof -
  let ?st = "enterState ''g'' [''x'']"
  have h1: "isSupportedFunctionCall ?st" by code_simp
  have h2: "calleeNameOf (node ?st) = Inr ''g''" by code_simp
  have h3: "lodash_last (scopeChain insideF) = Some 1" by code_simp
  have h4: "paramIds (heap insideF 1) = Some [''x'']" by code_simp
  have h5: "argumentIds (heap insideF 1) = [Some ''varA'']" by code_simp
  have h6: "getArgIdentifiers plainFormat (node ?st) = [Some ''x'']" by code_simp
  from entering_substitutes_caller_arguments [OF h1 h2 h3 h4, of plainFormat]
  obtain s' where s': "addEnteringFunction plainFormat ?st insideF = Inr (s', True)"
    and len: "length (argumentIds (heap s' (nextId insideF))) = 1"
    and el: "argumentIds (heap s' (nextId insideF)) ! 0 = Some ''varA''"
    unfolding h5 h6 by auto
  from len el have "argumentIds (heap s' (nextId insideF)) = [Some ''varA'']"
    by (cases "argumentIds (heap s' (nextId insideF))") auto
  with h1 h2 h3 h4 h5 h6 s' show ?thesis by blast
qed

subsection \<open>What a check returns\<close>



subsection \<open>The order of the three checks\<close>




subsection \<open>The root node\<close>

text \<open>
  C9, as stated, fails. In \<^verbatim>\<open>root(); c()\<close> without a wrapper, where \<open>root\<close> calls
  \<open>a\<close>, the exit of \<open>root\<close> is processed: it takes the root (node \<open>0\<close>) out of the node
  list. When the limit of returned nodes is \<open>0\<close> by then, the list is left empty and the
  next call, \<open>c\<close>, becomes a second node of type \<open>root\<close>.
\<close>

theorem root_removed_counterexample:
  "outcome nodes (steps plainFormat (bareProgram 1) VisibleFunctionUpdater) = Some (Inr [1, 2]) \<and>
   outcome rootTyped (steps plainFormat (bareProgram 1) VisibleFunctionUpdater) = Some (Inr [0]) \<and>
   outcome nodes (steps plainFormat (bareProgram 0) VisibleFunctionUpdater) = Some (Inr [2]) \<and>
   outcome rootTyped (steps plainFormat (bareProgram 0) VisibleFunctionUpdater) = Some (Inr [0, 2])"
  by code_simp

lemma sameGraph_refl: "sameGraph s s"
  by (simp add: sameGraph_def)

lemma sameGraph_trans: "sameGraph s s' \<Longrightarrow> sameGraph s' s'' \<Longrightarrow> sameGraph s s''"
  by (simp add: sameGraph_def)

lemma sameGraph_phaseInv: "sameGraph s s' \<Longrightarrow> phaseInv ph s \<Longrightarrow> phaseInv ph s'"
  by (cases ph) (auto simp: sameGraph_def)

lemma sameGraph_setStatus: "sameGraph s (setStatus n v s)"
  by (simp add: sameGraph_def setStatus_def)

lemma sameGraph_incErrorCount: "sameGraph s (incErrorCount r s)"
  by (simp add: sameGraph_def incErrorCount_def)

lemma sameGraph_getVariablesInScope: "sameGraph s (getVariablesInScope st u s)"
  by (simp add: sameGraph_def getVariablesInScope_def Let_def split: option.splits)

lemma sameGraph_updateParamsIdsFromCaller:
  "updateParamsIdsFromCaller st u s = Inr s' \<Longrightarrow> sameGraph s s'"
  by (auto simp: sameGraph_def updateParamsIdsFromCaller_def split: option.splits if_splits)

lemma sameGraph_isFunctionReturnUnassigned:
  "isFunctionReturnUnassigned st s = Inr (s', c) \<Longrightarrow> sameGraph s s'"
  by (auto simp: sameGraph_def isFunctionReturnUnassigned_def Let_def setStatus_def
        incErrorCount_def split: option.splits if_splits)

lemma sameGraph_isVariableModifiedOutOfScope:
  "isVariableModifiedOutOfScope st u s = Some (Inr (s', c)) \<Longrightarrow> sameGraph s s'"
  by (auto simp: sameGraph_def isVariableModifiedOutOfScope_def Let_def setStatus_def
        incErrorCount_def split: option.splits if_splits sum.splits prod.splits)

lemma sameGraph_doesDisplayNameNeedUpdating:
  "doesDisplayNameNeedUpdating fo st u s = Inr (s', c) \<Longrightarrow> sameGraph s s'"
  by (auto simp: sameGraph_def doesDisplayNameNeedUpdating_def Let_def
        split: option.splits if_splits sum.splits)

lemma sameGraph_updateEnteringFunction:
  assumes "updateEnteringFunction fo st s = Some (Inr (s', c))"
  shows "sameGraph s s'"
proof -
  let ?u = "lodash_last (scopeChain s)"
  let ?s1 = "getVariablesInScope st ?u s"
  from assms obtain s2 where s2: "updateParamsIdsFromCaller st ?u ?s1 = Inr s2"
    by (auto simp: updateEnteringFunction_def Let_def split: sum.splits)
  have g2: "sameGraph s s2"
    using sameGraph_trans [OF sameGraph_getVariablesInScope sameGraph_updateParamsIdsFromCaller [OF s2]] .
  show ?thesis
  proof (cases ?u)
    case None
    with assms s2 have "s' = s2" by (simp add: updateEnteringFunction_def Let_def)
    with g2 show ?thesis by simp
  next
    case (Some u)
    with assms s2 obtain s3 c1 where s3: "isFunctionReturnUnassigned st s2 = Inr (s3, c1)"
      by (auto simp: updateEnteringFunction_def Let_def split: sum.splits)
    have g3: "sameGraph s s3"
      using sameGraph_trans [OF g2 sameGraph_isFunctionReturnUnassigned [OF s3]] .
    show ?thesis
    proof (cases c1)
      case True
      with assms s2 s3 Some have "s' = s3" by (simp add: updateEnteringFunction_def Let_def)
      with g3 show ?thesis by simp
    next
      case False
      with assms s2 s3 Some obtain s4 c2
        where s4: "isVariableModifiedOutOfScope st u s3 = Some (Inr (s4, c2))"
        by (auto simp: updateEnteringFunction_def Let_def split: sum.splits option.splits)
      have g4: "sameGraph s s4"
        using sameGraph_trans [OF g3 sameGraph_isVariableModifiedOutOfScope [OF s4]] .
      show ?thesis
      proof (cases c2)
        case True
        with assms s2 s3 Some s4 \<open>\<not> c1\<close> have "s' = s4"
          by (simp add: updateEnteringFunction_def Let_def)
        with g4 show ?thesis by simp
      next
        case c2: False
        with assms s2 s3 Some s4 \<open>\<not> c1\<close>
        have "doesDisplayNameNeedUpdating fo st u s4 = Inr (s', c)"
          by (simp add: updateEnteringFunction_def Let_def)
        from sameGraph_trans [OF g4 sameGraph_doesDisplayNameNeedUpdating [OF this]]
        show ?thesis .
      qed
    qed
  qed
qed


lemma sameGraph_updater_fields:
  "sameGraph s (s\<lparr>warning := w, state := x\<rparr>)"
  by (simp add: sameGraph_def)

lemma addEnteringFunction_not_entering:
  "\<not> isSupportedFunctionCall st \<Longrightarrow> addEnteringFunction fo st s = Inr (s, False)"
  by (simp add: addEnteringFunction_def)

lemma addEnteringFunction_entering:
  assumes "isSupportedFunctionCall st" and "addEnteringFunction fo st s = Inr (s', b)"
  shows "\<exists>f. calleeNameOf (node st) = Inr f \<and> b \<and>
           nodes s' = nodes s @ [nextId s] \<and> nextId s' = Suc (nextId s) \<and>
           rootNode s' = (if nodes s = [] then Some (nextId s) else rootNode s) \<and>
           rootNodeIndex s' = rootNodeIndex s \<and> prevState s' = prevState s \<and>
           name (heap s' (nextId s)) = f \<and>
           itype (heap s' (nextId s)) = (if nodes s = [] then ''root'' else ''function'') \<and>
           (\<forall>i. i \<noteq> nextId s \<longrightarrow> heap s' i = heap s i)"
  using assms
  by (auto simp: addEnteringFunction_def getCallLink_def Let_def
        split: sum.splits prod.splits option.splits)

lemma entering_NoRoot:
  assumes "phaseInv NoRoot s" and "isSupportedFunctionCall st"
    and "addEnteringFunction fo st s = Inr (s', b)"
  shows "\<exists>rn. calleeNameOf (node st) = Inr rn \<and> b \<and> phaseInv (Open rn 0) s'"
  using addEnteringFunction_entering [OF assms(2,3)] assms(1) by auto

lemma entering_Open:
  assumes "phaseInv (Open rn d) s" and "isSupportedFunctionCall st"
    and "addEnteringFunction fo st s = Inr (s', b)"
  shows "b \<and> phaseInv (Open rn (Suc d)) s'"
proof -
  from addEnteringFunction_entering [OF assms(2,3)] obtain f where
    e: "b" "nodes s' = nodes s @ [nextId s]" "nextId s' = Suc (nextId s)"
       "rootNode s' = (if nodes s = [] then Some (nextId s) else rootNode s)"
       "rootNodeIndex s' = rootNodeIndex s" "prevState s' = prevState s"
       "itype (heap s' (nextId s)) = (if nodes s = [] then ''root'' else ''function'')"
       "\<forall>i. i \<noteq> nextId s \<longrightarrow> heap s' i = heap s i"
    by blast
  from assms(1) have ne: "nodes s \<noteq> []" by auto
  from assms(1) have z: "0 \<noteq> nextId s" by simp
  have ty: "\<forall>i. 0 < i \<and> i < nextId s' \<longrightarrow> itype (heap s' i) = ''function''"
  proof (intro allI impI)
    fix i assume i: "0 < i \<and> i < nextId s'"
    show "itype (heap s' i) = ''function''"
    proof (cases "i = nextId s")
      case True
      with e(7) ne show ?thesis by simp
    next
      case False
      with i e(3) have "i < nextId s" by simp
      with i assms(1) False e(8) show ?thesis by simp
    qed
  qed
  from assms(1) e z ne have "rootNodeIndex s' + Suc d < length (nodes s')"
    and "nodes s' ! rootNodeIndex s' = 0"
    by (auto simp: nth_append)
  with assms(1) e z ne ty show ?thesis by simp
qed

lemma exitLink_frame:
  assumes "exitLink st l s = Inr s'"
  shows "nodes s' = nodes s \<and> rootNodeIndex s' = rootNodeIndex s \<and> rootNode s' = rootNode s \<and>
         nextId s' = nextId s \<and> prevState s' = prevState s \<and> scopeChain s' = scopeChain s \<and>
         (\<forall>i. itype (heap s' i) = itype (heap s i) \<and> name (heap s' i) = name (heap s i))"
  using assms
  by (auto simp: exitLink_def getCallLink_def setStatus_def incErrorCount_def Let_def
        split: option.splits if_splits)

lemma exitNode_effect:
  assumes "exitNode fo st x s = Inr s'"
  shows "\<exists>e. nodes s' = e # butlast (nodes s) \<and> rootNodeIndex s' = rootNodeIndex s + 1 \<and>
           rootNode s' = rootNode s \<and> nextId s' = nextId s \<and> prevState s' = prevState s \<and>
           (\<forall>i. itype (heap s' i) = itype (heap s i) \<and> name (heap s' i) = name (heap s i))"
  using assms
  by (auto simp: exitNode_def Let_def split: option.splits)

lemma removeOldestReturned_effect:
  assumes "m < rootNodeIndex s"
  shows "nodes (removeOldestReturned m s) = take m (nodes s) @ drop (rootNodeIndex s) (nodes s) \<and>
         rootNodeIndex (removeOldestReturned m s) = m \<and>
         rootNode (removeOldestReturned m s) = rootNode s \<and>
         nextId (removeOldestReturned m s) = nextId s \<and>
         prevState (removeOldestReturned m s) = prevState s \<and>
         heap (removeOldestReturned m s) = heap s"
  using assms by (simp add: removeOldestReturned_def splice_def Let_def)

lemma root_after_exitNode:
  assumes "k + d < length ns" and "1 \<le> d" and "ns ! k = r"
  shows "(e # butlast ns) ! (k + 1) = r \<and> (k + 1) + (d - 1) < length (e # butlast ns)"
  using assms by (simp add: nth_butlast)

lemma root_after_eviction:
  assumes "k + d < length ns" and "ns ! k = r" and "m < k"
  shows "(take m ns @ drop k ns) ! m = r \<and> m + d < length (take m ns @ drop k ns)"
  using assms by (simp add: nth_append)


lemma removeExitingFunction_not_exit:
  "\<not> isSupportedReturnToCaller st \<Longrightarrow> removeExitingFunction fo st m s = Inr (s, False)"
  by (simp add: removeExitingFunction_def)

lemma isNotExitingRootNode_Open:
  assumes "rootNode s = Some 0" and "name (heap s 0) = rn" and "isSupportedReturnToCaller st"
    and "isNotExitingRootNode st s = Inr b"
  shows "b = (\<not> rootWrapperExit rn st)"
  using assms
  by (auto simp: isNotExitingRootNode_def isSupportedReturnToCaller_def calleeIdIsRoot_def
        rootWrapperExit_def split: option.splits if_splits sum.splits)

lemma exit_NoRoot:
  assumes "phaseInv NoRoot s" and "removeExitingFunction fo st m s = Inr (s', b)"
  shows "phaseInv NoRoot s'"
  using assms
  by (auto simp: removeExitingFunction_def lodash_last_def Let_def
        split: if_splits sum.splits)

lemma exit_processed:
  assumes inv: "phaseInv (Open rn d) s" and d: "1 \<le> d"
    and link: "(case lodash_last (links s) of
                  None \<Rightarrow> Inr s
                | Some l \<Rightarrow>
                   (case exitLink st l s of
                      Inl e \<Rightarrow> Inl e
                    | Inr s1 \<Rightarrow>
                       (let s2 = s1\<lparr>exitingNode := lodash_last (scopeChain s1)\<rparr>
                        in exitNode fo st (exitingNode s2) s2))) = Inr s3"
  shows "phaseInv (Open rn (d - 1))
           (let s4 = s3\<lparr>assignmentWarningVar := None\<rparr>
            in if rootNodeIndex s4 > m then removeOldestReturned m s4 else s4)"
proof -
  have mid: "phaseInv (Open rn (d - 1)) s3"
  proof (cases "lodash_last (links s)")
    case None
    with link have "s3 = s" by simp
    with inv d show ?thesis by auto
  next
    case (Some l)
    with link obtain s1 where s1: "exitLink st l s = Inr s1"
      and s3: "exitNode fo st (lodash_last (scopeChain s1))
                 (s1\<lparr>exitingNode := lodash_last (scopeChain s1)\<rparr>) = Inr s3"
      by (auto simp: Let_def split: sum.splits)
    note f1 = exitLink_frame [OF s1]
    from exitNode_effect [OF s3] obtain e where
      f3: "nodes s3 = e # butlast (nodes s1)" "rootNodeIndex s3 = rootNodeIndex s1 + 1"
          "rootNode s3 = rootNode s1" "nextId s3 = nextId s1" "prevState s3 = prevState s1"
          "\<forall>i. itype (heap s3 i) = itype (heap s1 i) \<and> name (heap s3 i) = name (heap s1 i)"
      by auto
    from inv have "rootNodeIndex s + d < length (nodes s)" "nodes s ! rootNodeIndex s = 0"
      by simp_all
    from root_after_exitNode [OF this(1) d this(2), of e] f1 f3
    have "nodes s3 ! rootNodeIndex s3 = 0" "rootNodeIndex s3 + (d - 1) < length (nodes s3)"
      by simp_all
    with inv f1 f3 show ?thesis by simp
  qed
  let ?s4 = "s3\<lparr>assignmentWarningVar := None\<rparr>"
  have inv4: "phaseInv (Open rn (d - 1)) ?s4" using mid by simp
  show ?thesis
  proof (cases "rootNodeIndex ?s4 > m")
    case False
    with inv4 show ?thesis by (simp add: Let_def)
  next
    case True
    note ev = removeOldestReturned_effect [OF True]
    from inv4 have "rootNodeIndex ?s4 + (d - 1) < length (nodes ?s4)"
      "nodes ?s4 ! rootNodeIndex ?s4 = 0" by simp_all
    from root_after_eviction [OF this True] ev
    have "nodes (removeOldestReturned m ?s4) ! rootNodeIndex (removeOldestReturned m ?s4) = 0"
      "rootNodeIndex (removeOldestReturned m ?s4) + (d - 1) < length (nodes (removeOldestReturned m ?s4))"
      by simp_all
    with inv4 ev True show ?thesis by (simp add: Let_def)
  qed
qed

lemma exit_Open:
  assumes inv: "phaseInv (Open rn d) s" and ret: "isSupportedReturnToCaller st"
    and ex: "removeExitingFunction fo st m s = Inr (s', b)"
  shows "if rootWrapperExit rn st then s' = s \<and> \<not> b
         else b \<and> (1 \<le> d \<longrightarrow> phaseInv (Open rn (d - 1)) s')"
proof -
  from ex ret obtain nr where nr: "isNotExitingRootNode st s = Inr nr"
    by (auto simp: removeExitingFunction_def split: sum.splits)
  from inv have "rootNode s = Some 0" "name (heap s 0) = rn" by simp_all
  note guard = isNotExitingRootNode_Open [OF this ret nr]
  show ?thesis
  proof (cases "rootWrapperExit rn st")
    case True
    with guard nr ex ret show ?thesis by (simp add: removeExitingFunction_def)
  next
    case False
    with guard have "nr" by simp
    with ex ret nr obtain s3 where
      s3: "(case lodash_last (links s) of
              None \<Rightarrow> Inr s
            | Some l \<Rightarrow>
               (case exitLink st l s of
                  Inl e \<Rightarrow> Inl e
                | Inr s1 \<Rightarrow>
                   (let s2 = s1\<lparr>exitingNode := lodash_last (scopeChain s1)\<rparr>
                    in exitNode fo st (exitingNode s2) s2))) = Inr s3"
      and s': "s' = (let s4 = s3\<lparr>assignmentWarningVar := None\<rparr>
                     in if rootNodeIndex s4 > m then removeOldestReturned m s4 else s4)"
      and b: "b"
      by (auto simp: removeExitingFunction_def Let_def split: sum.splits)
    from exit_processed [OF inv _ s3, of m] s' b False show ?thesis by simp
  qed
qed

lemma setPrevState_phaseInv:
  assumes "phaseInv ph s" and "ph \<noteq> NotStarted"
  shows "phaseInv ph (setPrevState s)"
  using assms by (cases ph) (auto simp: setPrevState_def split: option.splits)

lemma action_empty_stack:
  assumes "at stateStack 0 = None"
  shows "action fo stateStack m s = Some (Inr (s\<lparr>warning := None, state := None\<rparr>, False, None))"
  using assms by (simp add: action_def)

lemma action_phase:
  assumes inv: "phaseInv ph s" and top: "at stateStack 0 = Some st"
    and adv: "advance ph st = Some ph'"
    and act: "action fo stateStack m s = Some (Inr (s', r))"
  shows "phaseInv ph' (setPrevState s')"
proof -
  let ?s0 = "s\<lparr>warning := None, state := Some st\<rparr>"
  have inv0: "phaseInv ph ?s0"
    using sameGraph_phaseInv [OF sameGraph_updater_fields inv] .
  show ?thesis
  proof (cases "prevState s")
    case None
    with inv have ph: "ph = NotStarted" by (cases ph) auto
    from None act top have "s' = ?s0" by (simp add: action_def)
    with inv ph adv show ?thesis by (auto simp: setPrevState_def)
  next
    case (Some p)
    with inv have ns: "ph \<noteq> NotStarted" by (cases ph) auto
    from adv ns have ns': "ph' \<noteq> NotStarted"
      by (cases ph) (auto split: if_splits sum.splits)
    have "phaseInv ph' s'"
    proof (cases "isSupportedFunctionCall st")
      case True
      with act top Some obtain b where a: "addEnteringFunction fo st ?s0 = Inr (s', b)"
        by (auto simp: action_def Let_def addEnteringFunction_def split: sum.splits prod.splits if_splits)
      show ?thesis
      proof (cases ph)
        case NotStarted
        with ns show ?thesis by simp
      next
        case NoRoot
        with entering_NoRoot [OF _ True a] inv0 adv True show ?thesis by auto
      next
        case (Open rn d)
        with entering_Open [OF _ True a] inv0 adv True show ?thesis by auto
      qed
    next
      case False
      note a = addEnteringFunction_not_entering [OF False, of fo ?s0]
      from act top Some a obtain s2 b where
        e: "removeExitingFunction fo st m ?s0 = Inr (s2, b)"
        by (auto simp: action_def Let_def split: sum.splits prod.splits)
      have upd: "s' = s2 \<or> (\<not> b \<and> (\<exists>c. updateEnteringFunction fo st s2 = Some (Inr (s', c))))"
        using act top Some a e
        by (auto simp: action_def Let_def split: sum.splits prod.splits option.splits if_splits)
      have inv2: "phaseInv ph' s2"
      proof (cases ph)
        case NotStarted
        with ns show ?thesis by simp
      next
        case NoRoot
        with exit_NoRoot [OF _ e] inv0 adv False show ?thesis by auto
      next
        case (Open rn d)
        show ?thesis
        proof (cases "isSupportedReturnToCaller st")
          case True
          from inv0 Open have "phaseInv (Open rn d) ?s0" by simp
          from exit_Open [OF this True e]
          have x: "if rootWrapperExit rn st then s2 = ?s0 \<and> \<not> b
                   else b \<and> (1 \<le> d \<longrightarrow> phaseInv (Open rn (d - 1)) s2)" .
          show ?thesis
          proof (cases "rootWrapperExit rn st")
            case w: True
            with x adv Open False True inv0 show ?thesis by auto
          next
            case w: False
            with adv Open False True have "1 \<le> d" "ph' = Open rn (d - 1)"
              by (auto split: if_splits)
            with x w show ?thesis by simp
          qed
        next
          case r: False
          from removeExitingFunction_not_exit [OF r, of fo m ?s0] e have "s2 = ?s0" by simp
          with adv Open False r inv0 show ?thesis by auto
        qed
      qed
      from upd show ?thesis
      proof
        assume "s' = s2"
        with inv2 show ?thesis by simp
      next
        assume "\<not> b \<and> (\<exists>c. updateEnteringFunction fo st s2 = Some (Inr (s', c)))"
        then obtain c where "updateEnteringFunction fo st s2 = Some (Inr (s', c))" by blast
        from sameGraph_phaseInv [OF sameGraph_updateEnteringFunction [OF this] inv2]
        show ?thesis .
      qed
    qed
    from setPrevState_phaseInv [OF this ns'] show ?thesis .
  qed
qed

lemma steps_phase:
  assumes "phaseInv ph s" and "wellNested ph tr" and "steps fo tr s = Some (Inr s')"
  shows "\<exists>ph'. phaseInv ph' s'"
  using assms
proof (induction tr arbitrary: ph s)
  case Nil
  then show ?case by auto
next
  case (Cons x tr)
  obtain stateStack m where x: "x = (stateStack, m)" by (cases x)
  from Cons.prems(3) x obtain s1 r where
    act: "action fo stateStack m s = Some (Inr (s1, r))"
    and rest: "steps fo tr (setPrevState s1) = Some (Inr s')"
    by (auto split: option.splits sum.splits)
  show ?case
  proof (cases "at stateStack 0")
    case None
    from action_empty_stack [OF None, of fo m s] act
    have "s1 = s\<lparr>warning := None, state := None\<rparr>" by simp
    then have "sameGraph s (setPrevState s1)"
      by (simp add: setPrevState_def sameGraph_def)
    from sameGraph_phaseInv [OF this Cons.prems(1)] Cons.prems(2) x None rest Cons.IH
    show ?thesis by auto
  next
    case (Some st)
    with Cons.prems(2) x obtain ph' where adv: "advance ph st = Some ph'"
      and wn: "wellNested ph' tr"
      by (auto split: option.splits)
    from action_phase [OF Cons.prems(1) Some adv act] wn rest Cons.IH
    show ?thesis by blast
  qed
qed

lemma returns_reached:
  "returns (steps plainFormat tr VisibleFunctionUpdater) \<Longrightarrow>
   steps plainFormat tr VisibleFunctionUpdater = Some (Inr (reached tr))"
  by (auto simp: returns_def reached_def split: option.splits sum.splits)

text \<open>
  C9, amended. On a well-nested trace (every exit step other than the held-back exit
  of the root's wrapper comes while a call above the root is open), in every run that
  does not throw, the first node created is the only node of type \<open>root\<close>, it is
  \<^verbatim>\<open>rootNode\<close>, and it is in the node list.
\<close>

theorem root_unique_on_well_nested_traces:
  assumes "wellNested NotStarted tr"
    and "steps fo tr VisibleFunctionUpdater = Some (Inr s')"
  shows "(\<forall>i < nextId s'. (itype (heap s' i) = ''root'') = (i = 0)) \<and>
         (0 < nextId s' \<longrightarrow> rootNode s' = Some 0 \<and> 0 \<in> set (nodes s'))"
proof -
  have "phaseInv NotStarted VisibleFunctionUpdater"
    by (simp add: VisibleFunctionUpdater_def)
  from steps_phase [OF this assms] obtain ph' where inv: "phaseInv ph' s'" by blast
  show ?thesis
  proof (cases ph')
    case NotStarted
    with inv show ?thesis by simp
  next
    case NoRoot
    with inv show ?thesis by simp
  next
    case (Open rn d)
    with inv have "rootNodeIndex s' < length (nodes s')" "nodes s' ! rootNodeIndex s' = 0"
      by simp_all
    then have "0 \<in> set (nodes s')" by (metis nth_mem)
    with inv Open show ?thesis by auto
  qed
qed

theorem root_unique_on_well_nested_traces_witness:
  "wellNested NotStarted wrappedProgram \<and>
   returns (steps plainFormat wrappedProgram VisibleFunctionUpdater) \<and>
   nextId (reached wrappedProgram) = 3 \<and>
   itype (heap (reached wrappedProgram) 0) = ''root'' \<and>
   itype (heap (reached wrappedProgram) 1) \<noteq> ''root'' \<and>
   itype (heap (reached wrappedProgram) 2) \<noteq> ''root'' \<and>
   rootNode (reached wrappedProgram) = Some 0 \<and>
   0 \<in> set (nodes (reached wrappedProgram))"
proof -
  have h1: "wellNested NotStarted wrappedProgram" by code_simp
  have ok: "returns (steps plainFormat wrappedProgram VisibleFunctionUpdater)" by code_simp
  have n: "nextId (reached wrappedProgram) = 3" by code_simp
  from root_unique_on_well_nested_traces [OF h1 returns_reached [OF ok]] n h1 ok
  show ?thesis by simp
qed

subsection \<open>The count of links and nodes on valued traces\<close>

lemma sameGraph_countInv: "sameGraph s s' \<Longrightarrow> countInv ph s \<Longrightarrow> countInv ph s'"
  using sameGraph_phaseInv [of s s' ph]
  by (cases ph) (auto simp: sameGraph_def countInv_def)

lemma action_cases:
  assumes "action fo stateStack m s = Some (Inr (s', r))" and "at stateStack 0 = Some st"
    and "prevState s \<noteq> None"
  shows "(isSupportedFunctionCall st \<and>
            addEnteringFunction fo st (s\<lparr>warning := None, state := Some st\<rparr>) = Inr (s', True)) \<or>
         (\<not> isSupportedFunctionCall st \<and>
            removeExitingFunction fo st m (s\<lparr>warning := None, state := Some st\<rparr>) = Inr (s', True)) \<or>
         (\<not> isSupportedFunctionCall st \<and>
            removeExitingFunction fo st m (s\<lparr>warning := None, state := Some st\<rparr>)
              = Inr (s\<lparr>warning := None, state := Some st\<rparr>, False) \<and>
            (\<exists>c. updateEnteringFunction fo st (s\<lparr>warning := None, state := Some st\<rparr>)
                    = Some (Inr (s', c))))"
proof (cases "isSupportedFunctionCall st")
  case True
  with assms show ?thesis
    by (auto simp: action_def Let_def addEnteringFunction_def
          split: sum.splits prod.splits if_splits)
next
  case False
  let ?s0 = "s\<lparr>warning := None, state := Some st\<rparr>"
  note a = addEnteringFunction_not_entering [OF False, of fo ?s0]
  from assms a obtain s2 b where e: "removeExitingFunction fo st m ?s0 = Inr (s2, b)"
    by (auto simp: action_def Let_def split: sum.splits prod.splits)
  have "\<not> b \<Longrightarrow> s2 = ?s0"
    using e by (auto simp: removeExitingFunction_def Let_def split: if_splits sum.splits)
  with assms a e False show ?thesis
    by (auto simp: action_def Let_def split: sum.splits prod.splits option.splits if_splits)
qed

lemma entering_links:
  assumes "isSupportedFunctionCall st" and "addEnteringFunction fo st s = Inr (s', b)"
  shows "scopeChain s' \<noteq> [] \<and>
         length (links s') = (if scopeChain s = [] then length (links s) else length (links s) + 1)"
  using assms
  by (auto simp: addEnteringFunction_def getCallLink_def lodash_last_def Let_def
        split: sum.splits prod.splits option.splits if_splits)

lemma exitLink_value_links:
  assumes "returnsValue st" and "exitLink st l s = Inr s'"
  shows "length (links s') = length (links s)"
  using assms
  by (auto simp: exitLink_def returnsValue_def getCallLink_def setStatus_def Let_def
        split: option.splits if_splits)

lemma exitNode_links:
  assumes "exitNode fo st x s = Inr s'"
  shows "links s' = links s \<and> scopeChain s' = scopeChain s"
  using assms by (auto simp: exitNode_def Let_def split: option.splits)

lemma removeOldestReturned_links:
  assumes "m < rootNodeIndex s" and "1 < length (nodes s)"
  shows "links (removeOldestReturned m s) = take m (links s) @ drop (rootNodeIndex s) (links s) \<and>
         scopeChain (removeOldestReturned m s) = scopeChain s"
  using assms by (simp add: removeOldestReturned_def splice_def Let_def)

lemma exit_count:
  assumes inv: "countInv (Open rn d) s" and d: "1 \<le> d" and v: "returnsValue st"
    and ex: "removeExitingFunction fo st m s = Inr (s', True)"
  shows "scopeChain s' \<noteq> [] \<and> length (links s') + 1 = length (nodes s')"
proof -
  from inv have rel: "length (links s) + 1 = length (nodes s)" and sc: "scopeChain s \<noteq> []"
    and rt: "rootNodeIndex s + d < length (nodes s)" by (simp_all add: countInv_def)
  from rel rt d obtain l where l: "lodash_last (links s) = Some l"
    by (cases "links s") (auto simp: lodash_last_def)
  from ex l obtain s1 s3 where s1: "exitLink st l s = Inr s1"
    and s3: "exitNode fo st (lodash_last (scopeChain s1))
               (s1\<lparr>exitingNode := lodash_last (scopeChain s1)\<rparr>) = Inr s3"
    and s': "s' = (let s4 = s3\<lparr>assignmentWarningVar := None\<rparr>
                   in if rootNodeIndex s4 > m then removeOldestReturned m s4 else s4)"
    by (auto simp: removeExitingFunction_def Let_def split: if_splits sum.splits)
  note f1 = exitLink_frame [OF s1] and l1 = exitLink_value_links [OF v s1]
  from exitNode_effect [OF s3] obtain e where
    f3: "nodes s3 = e # butlast (nodes s1)" "rootNodeIndex s3 = rootNodeIndex s1 + 1"
    by auto
  note l3 = exitNode_links [OF s3]
  from rt d f1 f3 have n3: "length (nodes s3) = length (nodes s)" by simp
  from l1 l3 have k3: "length (links s3) = length (links s)" by simp
  from l3 f1 sc have c3: "scopeChain s3 \<noteq> []" by simp
  let ?s4 = "s3\<lparr>assignmentWarningVar := None\<rparr>"
  show ?thesis
  proof (cases "rootNodeIndex ?s4 > m")
    case False
    with s' n3 k3 c3 rel show ?thesis by (simp add: Let_def)
  next
    case True
    from n3 rt d have big: "1 < length (nodes ?s4)" by simp
    note en = removeOldestReturned_effect [OF True] and el = removeOldestReturned_links [OF True big]
    from f3 f1 rt d n3 have "rootNodeIndex ?s4 < length (nodes ?s4)" by simp
    moreover from f3 f1 rt d k3 rel have "rootNodeIndex ?s4 \<le> length (links ?s4)" by simp
    ultimately have
      "length (links (removeOldestReturned m ?s4)) + 1 = length (nodes (removeOldestReturned m ?s4))"
      using en el True n3 k3 rel by simp
    with s' True el c3 show ?thesis by (simp add: Let_def)
  qed
qed


lemma exit_NoRoot_scope:
  assumes "phaseInv NoRoot s" and "removeExitingFunction fo st m s = Inr (s', b)"
  shows "scopeChain s' = scopeChain s"
  using assms
  by (auto simp: removeExitingFunction_def lodash_last_def Let_def
        split: if_splits sum.splits)

lemma action_count:
  assumes inv: "countInv ph s" and top: "at stateStack 0 = Some st"
    and adv: "advance ph st = Some ph'" and v: "\<not> dropsLink ph st"
    and act: "action fo stateStack m s = Some (Inr (s', r))"
  shows "countInv ph' (setPrevState s')"
proof -
  let ?s0 = "s\<lparr>warning := None, state := Some st\<rparr>"
  from inv have pinv: "phaseInv ph s" by (simp add: countInv_def)
  note p' = action_phase [OF pinv top adv act]
  have inv0: "countInv ph ?s0"
    using sameGraph_countInv [OF sameGraph_updater_fields inv] .
  then have pinv0: "phaseInv ph ?s0" by (simp add: countInv_def)
  have same: "scopeChain (setPrevState s') = scopeChain s'" "links (setPrevState s') = links s'"
    "nodes (setPrevState s') = nodes s'"
    by (simp_all add: setPrevState_def split: option.splits)
  have "case ph' of
          Open rn d \<Rightarrow> scopeChain s' \<noteq> [] \<and> length (links s') + 1 = length (nodes s')
        | _ \<Rightarrow> scopeChain s' = []"
  proof (cases "prevState s")
    case None
    with pinv have ph: "ph = NotStarted" by (cases ph) auto
    from None act top have "s' = ?s0" by (simp add: action_def)
    with inv ph adv show ?thesis by (auto simp: countInv_def)
  next
    case (Some p)
    then have "prevState s \<noteq> None" by simp
    from action_cases [OF act top this]
    consider (enter) "isSupportedFunctionCall st" "addEnteringFunction fo st ?s0 = Inr (s', True)"
      | (exit) "\<not> isSupportedFunctionCall st" "removeExitingFunction fo st m ?s0 = Inr (s', True)"
      | (update) c where "\<not> isSupportedFunctionCall st"
          "removeExitingFunction fo st m ?s0 = Inr (?s0, False)"
          "updateEnteringFunction fo st ?s0 = Some (Inr (s', c))"
      by blast
    then show ?thesis
    proof cases
      case enter
      note el = entering_links [OF enter]
      from addEnteringFunction_entering [OF enter]
      have n: "nodes s' = nodes ?s0 @ [nextId ?s0]" by blast
      show ?thesis
      proof (cases ph)
        case NotStarted
        with pinv Some show ?thesis by simp
      next
        case NoRoot
        with entering_NoRoot [OF _ enter] pinv0 adv enter(1) obtain rn where "ph' = Open rn 0"
          by auto
        with el n inv0 NoRoot show ?thesis by (simp add: countInv_def)
      next
        case (Open rn d)
        with adv enter(1) have "ph' = Open rn (Suc d)" by simp
        with el n inv0 Open show ?thesis by (simp add: countInv_def)
      qed
    next
      case exit
      show ?thesis
      proof (cases ph)
        case NotStarted
        with pinv Some show ?thesis by simp
      next
        case NoRoot
        with pinv0 have "phaseInv NoRoot ?s0" by simp
        from exit_NoRoot_scope [OF this exit(2)] adv NoRoot exit(1) inv0
        show ?thesis by (simp add: countInv_def)
      next
        case (Open rn d)
        with pinv0 have o: "phaseInv (Open rn d) ?s0" by simp
        have ret: "isSupportedReturnToCaller st"
          using exit(2) by (auto simp: removeExitingFunction_def split: if_splits)
        from exit_Open [OF o ret exit(2)] have w: "\<not> rootWrapperExit rn st"
          by (auto split: if_splits)
        with adv Open exit(1) ret have d: "1 \<le> d" and ph': "ph' = Open rn (d - 1)"
          by (auto split: if_splits)
        from v Open exit(1) ret w have val: "returnsValue st" by (simp add: dropsLink_def)
        from inv0 Open have "countInv (Open rn d) ?s0" by simp
        from exit_count [OF this d val exit(2)] ph' show ?thesis by simp
      qed
    next
      case update
      note g = sameGraph_updateEnteringFunction [OF update(3)]
      have "ph' = ph"
      proof (cases ph)
        case NotStarted
        with pinv Some show ?thesis by simp
      next
        case NoRoot
        with adv update(1) show ?thesis by simp
      next
        case (Open rn d)
        with pinv0 have o: "phaseInv (Open rn d) ?s0" by simp
        show ?thesis
        proof (cases "isSupportedReturnToCaller st")
          case True
          from exit_Open [OF o True update(2)] have "rootWrapperExit rn st"
            by (auto split: if_splits)
          with adv Open update(1) show ?thesis by simp
        next
          case False
          with adv Open update(1) show ?thesis by simp
        qed
      qed
      with sameGraph_countInv [OF g inv0] show ?thesis
        by (cases ph) (auto simp: countInv_def)
    qed
  qed
  with p' same show ?thesis by (cases ph') (auto simp: countInv_def)
qed

lemma steps_count:
  assumes "countInv ph s" and "valued ph tr" and "steps fo tr s = Some (Inr s')"
  shows "\<exists>ph'. countInv ph' s'"
  using assms
proof (induction tr arbitrary: ph s)
  case Nil
  then show ?case by auto
next
  case (Cons x tr)
  obtain stateStack m where x: "x = (stateStack, m)" by (cases x)
  from Cons.prems(3) x obtain s1 r where
    act: "action fo stateStack m s = Some (Inr (s1, r))"
    and rest: "steps fo tr (setPrevState s1) = Some (Inr s')"
    by (auto split: option.splits sum.splits)
  show ?case
  proof (cases "at stateStack 0")
    case None
    from action_empty_stack [OF None, of fo m s] act
    have "s1 = s\<lparr>warning := None, state := None\<rparr>" by simp
    then have "sameGraph s (setPrevState s1)"
      by (simp add: setPrevState_def sameGraph_def)
    from sameGraph_countInv [OF this Cons.prems(1)] Cons.prems(2) x None rest Cons.IH
    show ?thesis by auto
  next
    case (Some st)
    with Cons.prems(2) x obtain ph' where adv: "advance ph st = Some ph'"
      and v: "\<not> dropsLink ph st" and wn: "valued ph' tr"
      by (auto split: option.splits)
    from action_count [OF Cons.prems(1) Some adv v act] wn rest Cons.IH
    show ?thesis by blast
  qed
qed

text \<open>
  The exit without a value is the only step that breaks the count on a well-nested
  trace: where every processed exit step carries a value, after every run that does
  not throw, the links are one fewer than the nodes while the scope chain is not empty.
\<close>

lemma link_count_while_calls_return_values:
  assumes "valued NotStarted tr"
    and "steps fo tr VisibleFunctionUpdater = Some (Inr s')"
  shows "scopeChain s' \<noteq> [] \<longrightarrow> length (links s') + 1 = length (nodes s')"
proof -
  have "countInv NotStarted VisibleFunctionUpdater"
    by (simp add: countInv_def VisibleFunctionUpdater_def)
  from steps_count [OF this assms] obtain ph' where "countInv ph' s'" by blast
  then show ?thesis by (cases ph') (auto simp: countInv_def)
qed

lemma link_count_on_valuedProgram:
  "valued NotStarted valuedProgram \<and>
   returns (steps plainFormat valuedProgram VisibleFunctionUpdater) \<and>
   scopeChain (reached valuedProgram) = [0, 1, 2, 3] \<and>
   length (nodes (reached valuedProgram)) = 2 \<and>
   length (links (reached valuedProgram)) + 1 = length (nodes (reached valuedProgram))"
proof -
  have h1: "valued NotStarted valuedProgram" by code_simp
  have ok: "returns (steps plainFormat valuedProgram VisibleFunctionUpdater)" by code_simp
  have sc: "scopeChain (reached valuedProgram) = [0, 1, 2, 3]" by code_simp
  have n: "length (nodes (reached valuedProgram)) = 2" by code_simp
  from link_count_while_calls_return_values [OF h1 returns_reached [OF ok]] sc n h1 ok
  show ?thesis by simp
qed

subsection \<open>The scope chain only grows\<close>

text \<open>
  No step takes a node off the scope chain: after every step, and after every run, the
  scope chain of before is a prefix of the scope chain.
\<close>

lemma addEnteringFunction_scopeChain:
  "addEnteringFunction fo st s = Inr (s', b) \<Longrightarrow> \<exists>xs. scopeChain s' = scopeChain s @ xs"
  by (auto simp: addEnteringFunction_def getCallLink_def Let_def
        split: sum.splits prod.splits option.splits if_splits)

lemma removeExitingFunction_scopeChain:
  assumes "removeExitingFunction fo st m s = Inr (s', b)"
  shows "scopeChain s' = scopeChain s"
proof (cases b)
  case False
  with assms show ?thesis
    by (auto simp: removeExitingFunction_def Let_def split: if_splits sum.splits)
next
  case True
  with assms obtain s3 where
    s3: "(case lodash_last (links s) of
            None \<Rightarrow> Inr s
          | Some l \<Rightarrow>
             (case exitLink st l s of
                Inl e \<Rightarrow> Inl e
              | Inr s1 \<Rightarrow>
                 (let s2 = s1\<lparr>exitingNode := lodash_last (scopeChain s1)\<rparr>
                  in exitNode fo st (exitingNode s2) s2))) = Inr s3"
    and s': "s' = (let s4 = s3\<lparr>assignmentWarningVar := None\<rparr>
                   in if rootNodeIndex s4 > m then removeOldestReturned m s4 else s4)"
    by (auto simp: removeExitingFunction_def Let_def split: if_splits sum.splits)
  have "scopeChain s3 = scopeChain s"
  proof (cases "lodash_last (links s)")
    case None
    with s3 show ?thesis by simp
  next
    case (Some l)
    with s3 obtain s1 where s1: "exitLink st l s = Inr s1"
      and e: "exitNode fo st (lodash_last (scopeChain s1))
                (s1\<lparr>exitingNode := lodash_last (scopeChain s1)\<rparr>) = Inr s3"
      by (auto simp: Let_def split: sum.splits)
    from exitLink_frame [OF s1] exitNode_links [OF e] show ?thesis by simp
  qed
  with s' show ?thesis by (simp add: Let_def removeOldestReturned_def)
qed

lemma action_scopeChain:
  assumes "action fo stateStack m s = Some (Inr (s', r))"
  shows "\<exists>xs. scopeChain s' = scopeChain s @ xs"
proof (cases "at stateStack 0")
  case None
  from action_empty_stack [OF None, of fo m s] assms show ?thesis by simp
next
  case (Some st)
  show ?thesis
  proof (cases "prevState s")
    case None
    with assms Some show ?thesis by (auto simp: action_def)
  next
    case p: (Some p)
    then have "prevState s \<noteq> None" by simp
    from action_cases [OF assms Some this] show ?thesis
    proof (elim disjE conjE exE)
      assume "addEnteringFunction fo st (s\<lparr>warning := None, state := Some st\<rparr>) = Inr (s', True)"
      from addEnteringFunction_scopeChain [OF this] show ?thesis by simp
    next
      assume "removeExitingFunction fo st m (s\<lparr>warning := None, state := Some st\<rparr>) = Inr (s', True)"
      from removeExitingFunction_scopeChain [OF this] show ?thesis by simp
    next
      fix c
      assume "updateEnteringFunction fo st (s\<lparr>warning := None, state := Some st\<rparr>) = Some (Inr (s', c))"
      from sameGraph_updateEnteringFunction [OF this] show ?thesis by (simp add: sameGraph_def)
    qed
  qed
qed

lemma steps_scopeChain:
  "steps fo tr s = Some (Inr s') \<Longrightarrow> \<exists>xs. scopeChain s' = scopeChain s @ xs"
proof (induction tr arbitrary: s)
  case Nil
  then show ?case by simp
next
  case (Cons x tr)
  obtain stateStack m where x: "x = (stateStack, m)" by (cases x)
  from Cons.prems x obtain s1 r where
    act: "action fo stateStack m s = Some (Inr (s1, r))"
    and rest: "steps fo tr (setPrevState s1) = Some (Inr s')"
    by (auto split: option.splits sum.splits)
  from action_scopeChain [OF act] obtain xs where "scopeChain s1 = scopeChain s @ xs" by blast
  moreover have "scopeChain (setPrevState s1) = scopeChain s1"
    by (simp add: setPrevState_def split: option.splits)
  moreover from Cons.IH [OF rest] obtain ys where "scopeChain s' = scopeChain (setPrevState s1) @ ys"
    by blast
  ultimately show ?case by simp
qed

subsection \<open>Exit steps\<close>

lemma increment_ge: "x \<le> increment x"
  by (simp add: increment_def)

lemma increment_Suc: "x < 9007199254740992 \<Longrightarrow> increment x = x + 1"
  by (simp add: increment_def)

lemma increment_below: "increment x < 9007199254740992 \<Longrightarrow> x < increment x"
  by (simp add: increment_def split: if_splits)

lemma splice_subset: "set (splice a b xs) \<subseteq> set xs"
  using set_take_subset [of a xs] set_drop_subset [of "a + b" xs]
  by (auto simp: splice_def)

lemma exitLink_no_value:
  assumes "val st = Some v" and "isPrimitive v" and "data v = None"
    and "rootNode s = Some r" and "source l \<noteq> target l"
  shows "\<exists>s'. exitLink st l s = Inr s' \<and>
           status (heap s' (target l)) = ''failure'' \<and>
           errorCount (heap s' r) = increment (errorCount (heap s r)) \<and>
           status (heap s' (source l)) = (if source l = r then [] else ''warning'') \<and>
           warning s' = Some (''Principle: Referential transparency'',
                              ''Function does not return a value'') \<and>
           links s' = butlast (links s) \<and>
           linkIndexCounter s' = linkIndexCounter s"
  using assms
  by (auto simp: exitLink_def explicitReturn_def incErrorCount_def setStatus_def Let_def
        split: if_splits)

lemma exitLink_value:
  assumes "val st = Some v"
    and "(doneCallee st \<and> isPrimitive v \<and> data v \<noteq> None) \<or> \<not> isPrimitive v"
  shows "\<exists>s'. exitLink st l s = Inr s' \<and>
           links s' = butlast (\<lparr>source = target l, target = source l, lstate = ''returning'',
                                  linkIndex = linkIndexCounter s\<rparr> # links s) \<and>
           linkIndexCounter s' = increment (linkIndexCounter s) \<and>
           status (heap s' (target l)) = ''returning''"
  using assms
  by (auto simp: exitLink_def explicitReturn_def getCallLink_def setStatus_def Let_def
        split: if_splits)

text \<open>
  What the exit handler does after \<^verbatim>\<open>exitLink\<close> when there is a link: it moves the
  top of the scope chain to the front of the nodes, and evicts.
\<close>

lemma removeExitingFunction_with_link:
  assumes ret: "isSupportedReturnToCaller st" and nr: "isNotExitingRootNode st s = Inr True"
    and l: "lodash_last (links s) = Some l" and x: "exitLink st l s = Inr s1"
    and sc: "scopeChain s \<noteq> []" and v: "val st = Some v"
  shows "\<exists>s'. removeExitingFunction fo st m s = Inr (s', True) \<and>
           (\<forall>i. status (heap s' i) = status (heap s1 i) \<and>
                errorCount (heap s' i) = errorCount (heap s1 i)) \<and>
           warning s' = warning s1 \<and> linkIndexCounter s' = linkIndexCounter s1 \<and>
           assignmentWarningVar s' = None \<and>
           links s' = (if m < rootNodeIndex s + 1 \<and> 1 < length (nodes s)
                       then splice m (rootNodeIndex s + 1 - m) (links s1) else links s1)"
proof -
  note f = exitLink_frame [OF x]
  from sc f obtain e where e: "lodash_last (scopeChain s1) = Some e"
    by (auto simp: lodash_last_def)
  let ?s2 = "s1\<lparr>exitingNode := Some e\<rparr>"
  obtain s3 where s3: "exitNode fo st (Some e) ?s2 = Inr s3"
    and h3: "\<forall>i. status (heap s3 i) = status (heap s1 i) \<and>
                  errorCount (heap s3 i) = errorCount (heap s1 i)"
    and w3: "warning s3 = warning s1" "linkIndexCounter s3 = linkIndexCounter s1"
      "links s3 = links s1" "rootNodeIndex s3 = rootNodeIndex s1 + 1"
      "nodes s3 = e # butlast (nodes s1)"
    using v by (auto simp: exitNode_def Let_def)
  have len: "1 < length (nodes s3) \<longleftrightarrow> 1 < length (nodes s)"
    using w3(5) f by (cases "nodes s") auto
  let ?s4 = "s3\<lparr>assignmentWarningVar := None\<rparr>"
  let ?s5 = "if rootNodeIndex ?s4 > m then removeOldestReturned m ?s4 else ?s4"
  have r: "removeExitingFunction fo st m s = Inr (?s5, True)"
    using ret nr l x e s3 by (simp add: removeExitingFunction_def Let_def)
  have "(\<forall>i. status (heap ?s5 i) = status (heap s1 i) \<and>
             errorCount (heap ?s5 i) = errorCount (heap s1 i)) \<and>
        warning ?s5 = warning s1 \<and> linkIndexCounter ?s5 = linkIndexCounter s1 \<and>
        assignmentWarningVar ?s5 = None \<and>
        links ?s5 = (if m < rootNodeIndex s + 1 \<and> 1 < length (nodes s)
                     then splice m (rootNodeIndex s + 1 - m) (links s1) else links s1)"
    using h3 w3 f len by (auto simp: removeOldestReturned_def Let_def)
  with r show ?thesis by blast
qed

lemma action_exit_step:
  assumes "at stateStack 0 = Some st" and "prevState s \<noteq> None"
    and "\<not> isSupportedFunctionCall st"
    and "removeExitingFunction fo st m (s\<lparr>warning := None, state := Some st\<rparr>) = Inr (s', True)"
  shows "action fo stateStack m s = Some (Inr (s', True, warning s'))"
  using assms by (auto simp: action_def addEnteringFunction_not_entering)

lemma isNotExitingRootNode_fields:
  "isNotExitingRootNode st (s\<lparr>warning := w, state := x\<rparr>) = isNotExitingRootNode st s"
  by (simp add: isNotExitingRootNode_def calleeIdIsRoot_def split: option.splits)

lemma removeExitingFunction_prevState:
  assumes "removeExitingFunction fo st m s = Inr (s', b)"
  shows "prevState s' = prevState s"
  using assms
  by (auto simp: removeExitingFunction_def removeOldestReturned_def Let_def
        dest!: exitLink_frame exitNode_effect split: if_splits sum.splits option.splits)

subsection \<open>What holds of every state a run reaches\<close>

lemma entering_effect:
  assumes "addEnteringFunction fo st s = Inr (s', True)"
  shows "scopeChain s' = scopeChain s @ [nextId s] \<and> nextId s' = Suc (nextId s) \<and>
         prevState s' = prevState s \<and>
         (links s' = links s \<or>
          (scopeChain s \<noteq> [] \<and>
           (\<exists>i. links s' = links s @ [\<lparr>source = last (scopeChain s), target = nextId s,
                                        lstate = ''calling'', linkIndex = i\<rparr>])))"
  using assms
  by (auto simp: addEnteringFunction_def getCallLink_def lodash_last_def Let_def
        split: sum.splits prod.splits option.splits if_splits)

lemma entering_linkInv:
  assumes e: "addEnteringFunction fo st s = Inr (s', True)" and i: "linkInv s"
    and p: "prevState s \<noteq> None"
  shows "linkInv s'"
proof -
  note f = entering_effect [OF e]
  have sc: "\<forall>n \<in> set (scopeChain s'). n < nextId s'"
    using f i by (auto simp: linkInv_def less_Suc_eq)
  have src: "scopeChain s \<noteq> [] \<Longrightarrow> last (scopeChain s) \<noteq> nextId s"
  proof -
    assume ne: "scopeChain s \<noteq> []"
    from last_in_set [OF ne] i have "last (scopeChain s) < nextId s"
      by (simp add: linkInv_def)
    then show ?thesis by simp
  qed
  have ends: "\<forall>l \<in> set (links s'). source l \<noteq> target l"
    using f i src by (auto simp: linkInv_def)
  from f p sc ends show ?thesis by (simp add: linkInv_def)
qed

lemma exitLink_ends:
  assumes "exitLink st l s = Inr s'"
  shows "\<forall>k \<in> set (links s'). k \<in> set (links s) \<or>
           (source k = target l \<and> target k = source l)"
proof -
  have b: "\<And>r xs k. k \<in> set (butlast (r # xs)) \<Longrightarrow> k = r \<or> k \<in> set xs"
    by (metis in_set_butlastD set_ConsD)
  from assms show ?thesis
    by (auto simp: exitLink_def getCallLink_def setStatus_def incErrorCount_def Let_def
          split: option.splits if_splits dest: in_set_butlastD dest!: b)
qed

lemma exit_effect:
  assumes "removeExitingFunction fo st m s = Inr (s', True)"
  shows "nextId s' = nextId s \<and>
         (\<forall>k \<in> set (links s'). k \<in> set (links s) \<or>
            (\<exists>l \<in> set (links s). source k = target l \<and> target k = source l))"
proof -
  from assms obtain s3 where
    s3: "(case lodash_last (links s) of
            None \<Rightarrow> Inr s
          | Some l \<Rightarrow>
             (case exitLink st l s of
                Inl e \<Rightarrow> Inl e
              | Inr s1 \<Rightarrow>
                 (let s2 = s1\<lparr>exitingNode := lodash_last (scopeChain s1)\<rparr>
                  in exitNode fo st (exitingNode s2) s2))) = Inr s3"
    and s': "s' = (let s4 = s3\<lparr>assignmentWarningVar := None\<rparr>
                   in if rootNodeIndex s4 > m then removeOldestReturned m s4 else s4)"
    by (auto simp: removeExitingFunction_def Let_def split: if_splits sum.splits)
  have mid: "nextId s3 = nextId s \<and>
         (\<forall>k \<in> set (links s3). k \<in> set (links s) \<or>
            (\<exists>l \<in> set (links s). source k = target l \<and> target k = source l))"
  proof (cases "lodash_last (links s)")
    case None
    with s3 show ?thesis by simp
  next
    case (Some l)
    then have l: "l \<in> set (links s)"
      by (auto simp: lodash_last_def split: if_splits)
    from Some s3 obtain s1 where s1: "exitLink st l s = Inr s1"
      and e: "exitNode fo st (lodash_last (scopeChain s1))
                (s1\<lparr>exitingNode := lodash_last (scopeChain s1)\<rparr>) = Inr s3"
      by (auto simp: Let_def split: sum.splits)
    have "links s3 = links s1" "nextId s3 = nextId s1"
      using e by (auto simp: exitNode_def Let_def split: option.splits)
    with exitLink_ends [OF s1] exitLink_frame [OF s1] l show ?thesis by auto
  qed
  have "set (links s') \<subseteq> set (links s3)" "nextId s' = nextId s3"
    using s' splice_subset [of _ _ "links s3"]
    by (auto simp: Let_def removeOldestReturned_def)
  with mid show ?thesis by auto
qed

lemma exit_linkInv:
  assumes e: "removeExitingFunction fo st m s = Inr (s', True)" and i: "linkInv s"
  shows "linkInv s'"
proof -
  note f = exit_effect [OF e] removeExitingFunction_scopeChain [OF e]
    removeExitingFunction_prevState [OF e]
  have ends: "\<forall>k \<in> set (links s'). source k \<noteq> target k"
    using f(1) i by (fastforce simp: linkInv_def)
  have "links s' \<noteq> [] \<Longrightarrow> links s \<noteq> []"
    using f(1) by (cases "links s'") auto
  with f i ends show ?thesis by (auto simp: linkInv_def)
qed

lemma sameGraph_linkInv: "sameGraph s s' \<Longrightarrow> linkInv s \<Longrightarrow> linkInv s'"
  by (simp add: sameGraph_def linkInv_def)

lemma action_linkInv:
  assumes a: "action fo stateStack m s = Some (Inr (s', r))" and i: "linkInv s"
  shows "linkInv (setPrevState s')"
proof -
  have p: "\<And>x. linkInv x \<Longrightarrow> linkInv (setPrevState x)"
    by (auto simp: linkInv_def setPrevState_def split: option.splits)
  have "linkInv s'"
  proof (cases "at stateStack 0")
    case None
    from action_empty_stack [OF None, of fo m s] a i show ?thesis
      by (auto simp: linkInv_def)
  next
    case (Some st)
    show ?thesis
    proof (cases "prevState s")
      case None
      with a Some i show ?thesis by (auto simp: action_def linkInv_def)
    next
      case p: (Some p)
      then have pr: "prevState s \<noteq> None" by simp
      let ?s0 = "s\<lparr>warning := None, state := Some st\<rparr>"
      have i0: "linkInv ?s0" using i by (simp add: linkInv_def)
      from action_cases [OF a Some pr] show ?thesis
      proof (elim disjE conjE exE)
        assume "addEnteringFunction fo st ?s0 = Inr (s', True)"
        from entering_linkInv [OF this i0] pr show ?thesis by simp
      next
        assume "removeExitingFunction fo st m ?s0 = Inr (s', True)"
        from exit_linkInv [OF this i0] show ?thesis .
      next
        fix c
        assume "updateEnteringFunction fo st ?s0 = Some (Inr (s', c))"
        from sameGraph_linkInv [OF sameGraph_updateEnteringFunction [OF this] i0]
        show ?thesis .
      qed
    qed
  qed
  then show ?thesis by (rule p)
qed

lemma steps_linkInv:
  "steps fo tr s = Some (Inr s') \<Longrightarrow> linkInv s \<Longrightarrow> linkInv s'"
proof (induction tr arbitrary: s)
  case Nil
  then show ?case by simp
next
  case (Cons x tr)
  obtain stateStack m where x: "x = (stateStack, m)" by (cases x)
  from Cons.prems x obtain s1 r where
    act: "action fo stateStack m s = Some (Inr (s1, r))"
    and rest: "steps fo tr (setPrevState s1) = Some (Inr s')"
    by (auto split: option.splits sum.splits)
  from Cons.IH [OF rest action_linkInv [OF act Cons.prems(2)]] show ?case .
qed

lemma run_linkInv:
  "steps fo tr VisibleFunctionUpdater = Some (Inr s) \<Longrightarrow> linkInv s"
  using steps_linkInv [of fo tr VisibleFunctionUpdater s]
  by (simp add: linkInv_def VisibleFunctionUpdater_def)

lemma steps_append:
  "steps fo (tr1 @ tr2) s =
     (case steps fo tr1 s of Some (Inr s1) \<Rightarrow> steps fo tr2 s1 | r \<Rightarrow> r)"
  by (induction tr1 arbitrary: s) (auto split: option.splits sum.splits)

lemma reached_split:
  assumes "returns (steps plainFormat (tr1 @ tr2) VisibleFunctionUpdater)"
  shows "steps plainFormat tr1 VisibleFunctionUpdater = Some (Inr (reached tr1)) \<and>
         steps plainFormat tr2 (reached tr1) = Some (Inr (reached (tr1 @ tr2)))"
  using assms
  by (auto simp: steps_append returns_def reached_def split: option.splits sum.splits)


subsection \<open>The exit of a function that returns no value\<close>

text \<open>
  An exit step without a value, taken in a state where the last link of the list is \<open>l\<close>,
  a root exists and a frame is current.
\<close>

lemma exit_without_value_at:
  assumes "at stateStack 0 = Some st" and "prevState s \<noteq> None"
    and "\<not> isSupportedFunctionCall st" and "isSupportedReturnToCaller st"
    and "isNotExitingRootNode st s = Inr True"
    and "val st = Some v" and "isPrimitive v" and "data v = None"
    and "rootNode s = Some r" and "errorCount (heap s r) < 9007199254740992"
    and "lodash_last (links s) = Some l" and "source l \<noteq> target l"
    and "scopeChain s \<noteq> []"
  shows "\<exists>s'. action fo stateStack m s =
                 Some (Inr (s', True, Some (''Principle: Referential transparency'',
                                            ''Function does not return a value''))) \<and>
           status (heap s' (target l)) = ''failure'' \<and>
           errorCount (heap s' r) = errorCount (heap s r) + 1 \<and>
           status (heap s' (source l)) = (if source l = r then [] else ''warning'') \<and>
           linkIndexCounter s' = linkIndexCounter s \<and>
           links s = butlast (links s) @ [l] \<and>
           links s' = (if m < rootNodeIndex s + 1 \<and> 1 < length (nodes s)
                       then splice m (rootNodeIndex s + 1 - m) (butlast (links s))
                       else butlast (links s))"
proof -
  let ?s0 = "s\<lparr>warning := None, state := Some st\<rparr>"
  have r0: "rootNode ?s0 = Some r" using assms(9) by simp
  from exitLink_no_value [OF assms(6-8) r0 assms(12)] obtain s1 where
    x: "exitLink st l ?s0 = Inr s1"
    and p: "status (heap s1 (target l)) = ''failure''"
      "errorCount (heap s1 r) = increment (errorCount (heap s r))"
      "status (heap s1 (source l)) = (if source l = r then [] else ''warning'')"
      "warning s1 = Some (''Principle: Referential transparency'',
                          ''Function does not return a value'')"
      "links s1 = butlast (links s)" "linkIndexCounter s1 = linkIndexCounter s"
    by auto
  have nr: "isNotExitingRootNode st ?s0 = Inr True"
    using assms(5) by (simp add: isNotExitingRootNode_fields)
  have l0: "lodash_last (links ?s0) = Some l" using assms(11) by simp
  have sc0: "scopeChain ?s0 \<noteq> []" using assms(13) by simp
  from removeExitingFunction_with_link [OF assms(4) nr l0 x sc0 assms(6), of fo m]
  obtain s' where e: "removeExitingFunction fo st m ?s0 = Inr (s', True)"
    and q: "\<forall>i. status (heap s' i) = status (heap s1 i) \<and>
                errorCount (heap s' i) = errorCount (heap s1 i)"
      "warning s' = warning s1" "linkIndexCounter s' = linkIndexCounter s1"
      "links s' = (if m < rootNodeIndex ?s0 + 1 \<and> 1 < length (nodes ?s0)
                   then splice m (rootNodeIndex ?s0 + 1 - m) (links s1) else links s1)"
    by blast
  note a = action_exit_step [OF assms(1-3) e]
  have last: "links s = butlast (links s) @ [l]"
    using assms(11) by (auto simp: lodash_last_def split: if_splits)
  from a p q increment_Suc [OF assms(10)] last show ?thesis by auto
qed

text \<open>
  C4, as stated, fails: it speaks of every exit step in which no value was produced,
  and the exit handler does its marking only when a link is left in the list. In the
  wrapper, \<open>a\<close> calls \<open>b\<close> and \<open>b\<close> exits without a value under the limit \<open>0\<close>: the
  eviction of that step splices out the calling link of \<open>a\<close>, and no link is left.
  The exit of \<open>a\<close>, again without a value, is processed (\<^verbatim>\<open>action\<close> reports
  \<^verbatim>\<open>true\<close>), and it returns no warning, marks no node and counts no error: the
  statuses and the error counts are those of before.
\<close>

theorem exit_without_link_counterexample:
  "outcome links (steps plainFormat lostLinkProgram VisibleFunctionUpdater) = Some (Inr []) \<and>
   outcome statuses (steps plainFormat lostLinkProgram VisibleFunctionUpdater)
     = Some (Inr [''success'', ''warning'', ''failure'']) \<and>
   outcome errorCounts (steps plainFormat lostLinkProgram VisibleFunctionUpdater)
     = Some (Inr [1, 0, 0]) \<and>
   outcome (fst \<circ> snd) (action plainFormat [returnState ''a'' [] None] 0 (reached lostLinkProgram))
     = Some (Inr True) \<and>
   outcome (snd \<circ> snd) (action plainFormat [returnState ''a'' [] None] 0 (reached lostLinkProgram))
     = Some (Inr None) \<and>
   outcome (statuses \<circ> fst) (action plainFormat [returnState ''a'' [] None] 0 (reached lostLinkProgram))
     = Some (Inr [''success'', ''warning'', ''failure'']) \<and>
   outcome (errorCounts \<circ> fst) (action plainFormat [returnState ''a'' [] None] 0 (reached lostLinkProgram))
     = Some (Inr [1, 0, 0])"
  by code_simp

text \<open>
  C4, amended. In a state \<open>s\<close> that a run has reached and whose link list ends with the
  link \<open>l\<close>, every step that is a supported return to the caller, is not the held-back
  exit of the root, and carries a primitive value without data is processed by
  \<^verbatim>\<open>action\<close> as follows, as long as the error count of the root \<open>r\<close> is below
  \<open>9007199254740992\<close>: \<^verbatim>\<open>action\<close> returns \<^verbatim>\<open>true\<close> with the warning
  \<^verbatim>\<open>Function does not return a value\<close>; the target of \<open>l\<close> has status
  \<^verbatim>\<open>failure\<close>; the error count of the root is one more; the source of \<open>l\<close> has
  status \<^verbatim>\<open>warning\<close>, or the empty status if it is the root; no link index is
  allocated; and \<open>l\<close> is gone from the end of the list with no link put in its place.
  When the step also evicts (\<^verbatim>\<open>rootNodeIndex\<close>, which the exit has increased by one,
  exceeds \<^verbatim>\<open>maxAllowedReturnNodes\<close>, and there is more than one node), the links left
  are spliced at the indices of the evicted nodes.
\<close>

theorem exit_step_without_value:
  assumes run: "steps fo tr VisibleFunctionUpdater = Some (Inr s)"
    and top: "at stateStack 0 = Some st"
    and ne: "\<not> isSupportedFunctionCall st" and ret: "isSupportedReturnToCaller st"
    and nr: "isNotExitingRootNode st s = Inr True"
    and v: "val st = Some v" "isPrimitive v" "data v = None"
    and r: "rootNode s = Some r" and lim: "errorCount (heap s r) < 9007199254740992"
    and l: "lodash_last (links s) = Some l"
  shows "\<exists>s'. action fo stateStack m s =
                 Some (Inr (s', True, Some (''Principle: Referential transparency'',
                                            ''Function does not return a value''))) \<and>
           status (heap s' (target l)) = ''failure'' \<and>
           errorCount (heap s' r) = errorCount (heap s r) + 1 \<and>
           status (heap s' (source l)) = (if source l = r then [] else ''warning'') \<and>
           linkIndexCounter s' = linkIndexCounter s \<and>
           links s = butlast (links s) @ [l] \<and>
           links s' = (if m < rootNodeIndex s + 1 \<and> 1 < length (nodes s)
                       then splice m (rootNodeIndex s + 1 - m) (butlast (links s))
                       else butlast (links s))"
proof -
  note i = run_linkInv [OF run]
  from l have "l \<in> set (links s)" "links s \<noteq> []"
    by (auto simp: lodash_last_def split: if_splits)
  with i have sc: "scopeChain s \<noteq> []" and prev: "prevState s \<noteq> None"
    and d: "source l \<noteq> target l"
    by (auto simp: linkInv_def)
  from exit_without_value_at [OF top prev ne ret nr v r lim l d sc] show ?thesis .
qed

theorem exit_step_without_value_witness:
  "returns (steps plainFormat [startStep, entering ''root'' [] 1, entering ''a'' [] 1]
      VisibleFunctionUpdater) \<and>
   isSupportedReturnToCaller (returnState ''a'' [] None) \<and>
   isNotExitingRootNode (returnState ''a'' [] None) rootCallsA = Inr True \<and>
   rootNode rootCallsA = Some 0 \<and>
   lodash_last (links rootCallsA) =
     Some \<lparr>source = 0, target = 1, lstate = ''calling'', linkIndex = 0\<rparr> \<and>
   (\<exists>s'. action plainFormat [returnState ''a'' [] None] 1 rootCallsA =
            Some (Inr (s', True, Some (''Principle: Referential transparency'',
                                       ''Function does not return a value''))) \<and>
      status (heap s' 1) = ''failure'' \<and> errorCount (heap s' 0) = 1 \<and>
      status (heap s' 0) = [] \<and> links s' = [])"
proof -
  let ?st = "returnState ''a'' [] None"
  let ?l = "\<lparr>source = 0, target = 1, lstate = ''calling'', linkIndex = 0::nat\<rparr>"
  let ?v = "\<lparr>isPrimitive = True, data = None\<rparr>"
  have ok: "returns (steps plainFormat [startStep, entering ''root'' [] 1, entering ''a'' [] 1]
      VisibleFunctionUpdater)" by code_simp
  have run: "steps plainFormat [startStep, entering ''root'' [] 1, entering ''a'' [] 1]
      VisibleFunctionUpdater = Some (Inr rootCallsA)"
    using returns_reached [OF ok] by (simp add: rootCallsA_def)
  have h1: "at [?st] 0 = Some ?st" by (simp add: at_def)
  have h3: "\<not> isSupportedFunctionCall ?st" by code_simp
  have h4: "isSupportedReturnToCaller ?st" by code_simp
  have h5: "isNotExitingRootNode ?st rootCallsA = Inr True" by code_simp
  have h6: "val ?st = Some ?v" by code_simp
  have h7: "isPrimitive ?v" by simp
  have h8: "data ?v = None" by simp
  have h9: "rootNode rootCallsA = Some 0" by code_simp
  have e0: "errorCount (heap rootCallsA 0) = 0" by code_simp
  then have h10: "errorCount (heap rootCallsA 0) < 9007199254740992" by simp
  have h11: "lodash_last (links rootCallsA) = Some ?l" by code_simp
  have ls: "links rootCallsA = [?l]" by code_simp
  have ri: "rootNodeIndex rootCallsA = 0" by code_simp
  from exit_step_without_value [OF run h1 h3 h4 h5 h6 h7 h8 h9 h10 h11, of 1]
  obtain s' where
    "action plainFormat [?st] 1 rootCallsA =
       Some (Inr (s', True, Some (''Principle: Referential transparency'',
                                  ''Function does not return a value'')))"
    "status (heap s' 1) = ''failure''" "errorCount (heap s' 0) = 1"
    "status (heap s' 0) = []" "links s' = []"
    using e0 ls ri by auto
  with ok h4 h5 h9 h11 show ?thesis by blast
qed

subsection \<open>Link indices along a run\<close>

lemma entering_counter:
  assumes "addEnteringFunction fo st s = Inr (s', b)"
  shows "linkIndexCounter s \<le> linkIndexCounter s' \<and>
         (\<forall>k \<in> set (links s'). k \<in> set (links s) \<or>
            (linkIndex k = linkIndexCounter s \<and>
             linkIndexCounter s' = increment (linkIndexCounter s)))"
  using assms increment_ge [of "linkIndexCounter s"]
  by (auto simp: addEnteringFunction_def getCallLink_def Let_def
        split: sum.splits prod.splits option.splits if_splits)

lemma exitLink_counter:
  assumes "exitLink st l s = Inr s'"
  shows "linkIndexCounter s \<le> linkIndexCounter s' \<and>
         (\<forall>k \<in> set (links s'). k \<in> set (links s) \<or>
            (linkIndex k = linkIndexCounter s \<and>
             linkIndexCounter s' = increment (linkIndexCounter s)))"
proof -
  have b: "\<And>r xs k. k \<in> set (butlast (r # xs)) \<Longrightarrow> k = r \<or> k \<in> set xs"
    by (metis in_set_butlastD set_ConsD)
  from assms show ?thesis
    using increment_ge [of "linkIndexCounter s"]
    by (auto simp: exitLink_def getCallLink_def setStatus_def incErrorCount_def Let_def
          split: option.splits if_splits dest: in_set_butlastD dest!: b)
qed

lemma removeExitingFunction_counter:
  assumes "removeExitingFunction fo st m s = Inr (s', b)"
  shows "linkIndexCounter s \<le> linkIndexCounter s' \<and>
         (\<forall>k \<in> set (links s'). k \<in> set (links s) \<or>
            (linkIndex k = linkIndexCounter s \<and>
             linkIndexCounter s' = increment (linkIndexCounter s)))"
proof (cases b)
  case False
  with assms have "s' = s"
    by (auto simp: removeExitingFunction_def Let_def split: if_splits sum.splits)
  then show ?thesis by simp
next
  case True
  with assms obtain s3 where
    s3: "(case lodash_last (links s) of
            None \<Rightarrow> Inr s
          | Some l \<Rightarrow>
             (case exitLink st l s of
                Inl e \<Rightarrow> Inl e
              | Inr s1 \<Rightarrow>
                 (let s2 = s1\<lparr>exitingNode := lodash_last (scopeChain s1)\<rparr>
                  in exitNode fo st (exitingNode s2) s2))) = Inr s3"
    and s': "s' = (let s4 = s3\<lparr>assignmentWarningVar := None\<rparr>
                   in if rootNodeIndex s4 > m then removeOldestReturned m s4 else s4)"
    by (auto simp: removeExitingFunction_def Let_def split: if_splits sum.splits)
  have mid: "linkIndexCounter s \<le> linkIndexCounter s3 \<and>
         (\<forall>k \<in> set (links s3). k \<in> set (links s) \<or>
            (linkIndex k = linkIndexCounter s \<and>
             linkIndexCounter s3 = increment (linkIndexCounter s)))"
  proof (cases "lodash_last (links s)")
    case None
    with s3 show ?thesis by simp
  next
    case (Some l)
    with s3 obtain s1 where s1: "exitLink st l s = Inr s1"
      and e: "exitNode fo st (lodash_last (scopeChain s1))
                (s1\<lparr>exitingNode := lodash_last (scopeChain s1)\<rparr>) = Inr s3"
      by (auto simp: Let_def split: sum.splits)
    have "links s3 = links s1" "linkIndexCounter s3 = linkIndexCounter s1"
      using e by (auto simp: exitNode_def Let_def split: option.splits)
    with exitLink_counter [OF s1] show ?thesis by simp
  qed
  have "set (links s') \<subseteq> set (links s3)" "linkIndexCounter s' = linkIndexCounter s3"
    using s' splice_subset [of _ _ "links s3"]
    by (auto simp: Let_def removeOldestReturned_def)
  with mid show ?thesis by auto
qed

text \<open>
  The counter never goes down, and while it is below the limit of exact increments,
  every link in the list has an index below it.
\<close>

lemma action_counter:
  assumes "action fo stateStack m s = Some (Inr (s', r))"
  shows "linkIndexCounter s \<le> linkIndexCounter s' \<and>
         (linkIndexCounter s' < 9007199254740992 \<longrightarrow>
          (\<forall>k \<in> set (links s). linkIndex k < linkIndexCounter s) \<longrightarrow>
          (\<forall>k \<in> set (links s'). linkIndex k < linkIndexCounter s'))"
proof -
  let ?s0 = "s\<lparr>warning := None, state := at stateStack 0\<rparr>"
  have step: "linkIndexCounter s \<le> linkIndexCounter s' \<and>
         (\<forall>k \<in> set (links s'). k \<in> set (links s) \<or>
            (linkIndex k = linkIndexCounter s \<and>
             linkIndexCounter s' = increment (linkIndexCounter s)))"
  proof (cases "at stateStack 0")
    case None
    from action_empty_stack [OF None, of fo m s] assms show ?thesis by auto
  next
    case (Some st)
    show ?thesis
    proof (cases "prevState s")
      case None
      with assms Some show ?thesis by (auto simp: action_def)
    next
      case p: (Some p)
      then have "prevState s \<noteq> None" by simp
      from action_cases [OF assms Some this] show ?thesis
      proof (elim disjE conjE exE)
        assume "addEnteringFunction fo st (s\<lparr>warning := None, state := Some st\<rparr>) = Inr (s', True)"
        from entering_counter [OF this] show ?thesis by simp
      next
        assume "removeExitingFunction fo st m (s\<lparr>warning := None, state := Some st\<rparr>) = Inr (s', True)"
        from removeExitingFunction_counter [OF this] show ?thesis by simp
      next
        fix c
        assume "updateEnteringFunction fo st (s\<lparr>warning := None, state := Some st\<rparr>) = Some (Inr (s', c))"
        from sameGraph_updateEnteringFunction [OF this] show ?thesis by (simp add: sameGraph_def)
      qed
    qed
  qed
  show ?thesis
  proof (intro conjI impI ballI)
    from step show "linkIndexCounter s \<le> linkIndexCounter s'" by simp
  next
    fix k
    assume lim: "linkIndexCounter s' < 9007199254740992"
      and old: "\<forall>k \<in> set (links s). linkIndex k < linkIndexCounter s"
      and k: "k \<in> set (links s')"
    from step k consider "k \<in> set (links s)"
      | "linkIndex k = linkIndexCounter s" "linkIndexCounter s' = increment (linkIndexCounter s)"
      by blast
    then show "linkIndex k < linkIndexCounter s'"
    proof cases
      case 1
      with old step show ?thesis by fastforce
    next
      case 2
      with lim increment_below [of "linkIndexCounter s"] show ?thesis by simp
    qed
  qed
qed

lemma steps_counter:
  assumes "steps fo tr s = Some (Inr s')"
  shows "linkIndexCounter s \<le> linkIndexCounter s' \<and>
         (linkIndexCounter s' < 9007199254740992 \<longrightarrow>
          (\<forall>k \<in> set (links s). linkIndex k < linkIndexCounter s) \<longrightarrow>
          (\<forall>k \<in> set (links s'). linkIndex k < linkIndexCounter s'))"
  using assms
proof (induction tr arbitrary: s)
  case Nil
  then show ?case by simp
next
  case (Cons x tr)
  obtain stateStack m where x: "x = (stateStack, m)" by (cases x)
  from Cons.prems x obtain s1 r where
    act: "action fo stateStack m s = Some (Inr (s1, r))"
    and rest: "steps fo tr (setPrevState s1) = Some (Inr s')"
    by (auto split: option.splits sum.splits)
  have same: "linkIndexCounter (setPrevState s1) = linkIndexCounter s1"
    "links (setPrevState s1) = links s1"
    by (simp_all add: setPrevState_def split: option.splits)
  note a = action_counter [OF act] and b = Cons.IH [OF rest]
  show ?case
  proof (intro conjI impI)
    from a b same show "linkIndexCounter s \<le> linkIndexCounter s'" by simp
  next
    assume lim: "linkIndexCounter s' < 9007199254740992"
      and old: "\<forall>k \<in> set (links s). linkIndex k < linkIndexCounter s"
    from b same lim have "linkIndexCounter s1 < 9007199254740992" by simp
    with a old have "\<forall>k \<in> set (links s1). linkIndex k < linkIndexCounter s1" by blast
    with b same lim show "\<forall>k \<in> set (links s'). linkIndex k < linkIndexCounter s'" by simp
  qed
qed

text \<open>
  C5, as stated, fails on the count of the links and on the kind of the replaced link.
  In the wrapper, \<open>a\<close> calls \<open>b\<close> and \<open>b\<close> returns \<open>2\<close>, which leaves two links; the
  exit of \<open>a\<close> with the value \<open>1\<close> under the limit \<open>1\<close> reverses the calling link of
  \<open>a\<close> and, in the same step, evicts the link that the exit of \<open>b\<close> had put in front:
  one link is left. And when \<open>root\<close> is entered as a plain call, \<open>a\<close> returns \<open>1\<close>
  and \<open>root\<close> exits with a value, the link the exit of \<open>root\<close> finds last is the
  \<^verbatim>\<open>returning\<close> link of \<open>a\<close>, and that one is reversed again.
\<close>

theorem exit_link_count_counterexample:
  "outcome links (steps plainFormat nestedProgram VisibleFunctionUpdater)
     = Some (Inr [\<lparr>source = 2, target = 1, lstate = ''returning'', linkIndex = 2\<rparr>,
                  \<lparr>source = 0, target = 1, lstate = ''calling'', linkIndex = 0\<rparr>]) \<and>
   outcome (fst \<circ> snd)
     (action plainFormat [returnState ''a'' [] (Some ''1'')] 1 (reached nestedProgram))
     = Some (Inr True) \<and>
   outcome (links \<circ> fst)
     (action plainFormat [returnState ''a'' [] (Some ''1'')] 1 (reached nestedProgram))
     = Some (Inr [\<lparr>source = 1, target = 0, lstate = ''returning'', linkIndex = 3\<rparr>]) \<and>
   outcome links (steps plainFormat
      [startStep, entering ''root'' [] 1, entering ''a'' [] 1, returning ''a'' (Some ''1'') 1]
      VisibleFunctionUpdater)
     = Some (Inr [\<lparr>source = 1, target = 0, lstate = ''returning'', linkIndex = 1\<rparr>]) \<and>
   outcome (fst \<circ> snd)
     (action plainFormat [returnState ''root'' [] (Some ''0'')] 1
        (reached [startStep, entering ''root'' [] 1, entering ''a'' [] 1,
                  returning ''a'' (Some ''1'') 1]))
     = Some (Inr True) \<and>
   outcome (links \<circ> fst)
     (action plainFormat [returnState ''root'' [] (Some ''0'')] 1
        (reached [startStep, entering ''root'' [] 1, entering ''a'' [] 1,
                  returning ''a'' (Some ''1'') 1]))
     = Some (Inr [\<lparr>source = 0, target = 1, lstate = ''returning'', linkIndex = 2\<rparr>])"
  by code_simp

text \<open>
  C5, amended. In a state \<open>s\<close> that a run has reached and whose link list ends with the
  link \<open>l\<close> (calling or returning), every step that is a supported return to the caller,
  is not the held-back exit of the root, and carries a value (a primitive with data
  once the callee is resolved, or a non-primitive) is processed by \<^verbatim>\<open>action\<close> as
  follows, as long as the link counter is below \<open>9007199254740992\<close>: the target of \<open>l\<close>
  has status \<^verbatim>\<open>returning\<close>; one \<^verbatim>\<open>returning\<close> link \<open>r\<close> with the ends of \<open>l\<close>
  swapped is put in front of the list and \<open>l\<close> is taken from its end; the index of
  \<open>r\<close> is the value of the link counter, which then moves one up; that index is at
  least the counter's value at every earlier point \<open>s1\<close> of the run, and above the
  index of every link in the list at \<open>s1\<close> and at \<open>s\<close>. When the step also evicts, the
  links are then spliced at the indices of the evicted nodes; when it does not
  (\<^verbatim>\<open>rootNodeIndex\<close> is below \<^verbatim>\<open>maxAllowedReturnNodes\<close> before the step), the number
  of links is that of before.
\<close>

theorem exit_step_reverses_last_link:
  assumes run1: "steps fo tr1 VisibleFunctionUpdater = Some (Inr s1)"
    and run2: "steps fo tr2 s1 = Some (Inr s)"
    and top: "at stateStack 0 = Some st"
    and ne: "\<not> isSupportedFunctionCall st" and ret: "isSupportedReturnToCaller st"
    and nr: "isNotExitingRootNode st s = Inr True"
    and v: "val st = Some v"
    and ex: "(doneCallee st \<and> isPrimitive v \<and> data v \<noteq> None) \<or> \<not> isPrimitive v"
    and l: "lodash_last (links s) = Some l"
    and lim: "linkIndexCounter s < 9007199254740992"
  shows "\<exists>s' w r. action fo stateStack m s = Some (Inr (s', True, w)) \<and>
           source r = target l \<and> target r = source l \<and> lstate r = ''returning'' \<and>
           linkIndex r = linkIndexCounter s \<and>
           linkIndexCounter s1 \<le> linkIndex r \<and>
           (\<forall>k \<in> set (links s1). linkIndex k < linkIndex r) \<and>
           (\<forall>k \<in> set (links s). linkIndex k < linkIndex r) \<and>
           linkIndexCounter s' = linkIndexCounter s + 1 \<and>
           links s = butlast (links s) @ [l] \<and>
           links s' = (if m < rootNodeIndex s + 1 \<and> 1 < length (nodes s)
                       then splice m (rootNodeIndex s + 1 - m) (r # butlast (links s))
                       else r # butlast (links s)) \<and>
           (rootNodeIndex s < m \<longrightarrow> length (links s') = length (links s)) \<and>
           status (heap s' (target l)) = ''returning''"
proof -
  note i = steps_linkInv [OF run2 run_linkInv [OF run1]]
  from l have "links s \<noteq> []"
    by (auto simp: lodash_last_def split: if_splits)
  with i have sc: "scopeChain s \<noteq> []" and prev: "prevState s \<noteq> None"
    by (auto simp: linkInv_def)
  let ?s0 = "s\<lparr>warning := None, state := Some st\<rparr>"
  let ?r = "\<lparr>source = target l, target = source l, lstate = ''returning'',
             linkIndex = linkIndexCounter s\<rparr>"
  from exitLink_value [OF v ex, of l ?s0] obtain x1 where
    x: "exitLink st l ?s0 = Inr x1"
    and p: "links x1 = butlast (?r # links s)"
      "linkIndexCounter x1 = increment (linkIndexCounter s)"
      "status (heap x1 (target l)) = ''returning''"
    by auto
  have nr0: "isNotExitingRootNode st ?s0 = Inr True"
    using nr by (simp add: isNotExitingRootNode_fields)
  have l0: "lodash_last (links ?s0) = Some l" using l by simp
  have sc0: "scopeChain ?s0 \<noteq> []" using sc by simp
  from removeExitingFunction_with_link [OF ret nr0 l0 x sc0 v, of fo m]
  obtain s' where e: "removeExitingFunction fo st m ?s0 = Inr (s', True)"
    and q: "\<forall>i. status (heap s' i) = status (heap x1 i) \<and>
                errorCount (heap s' i) = errorCount (heap x1 i)"
      "linkIndexCounter s' = linkIndexCounter x1"
      "links s' = (if m < rootNodeIndex ?s0 + 1 \<and> 1 < length (nodes ?s0)
                   then splice m (rootNodeIndex ?s0 + 1 - m) (links x1) else links x1)"
    by blast
  note a = action_exit_step [OF top prev ne e]
  have last: "links s = butlast (links s) @ [l]" and nonempty: "links s \<noteq> []"
    using l by (auto simp: lodash_last_def split: if_splits)
  then have bl: "butlast (?r # links s) = ?r # butlast (links s)" by simp
  have init: "\<forall>k \<in> set (links VisibleFunctionUpdater). linkIndex k < linkIndexCounter VisibleFunctionUpdater"
    by (simp add: VisibleFunctionUpdater_def)
  note c1 = steps_counter [OF run1] and c2 = steps_counter [OF run2]
  from c2 lim have lim1: "linkIndexCounter s1 < 9007199254740992" by simp
  with c1 init have b1: "\<forall>k \<in> set (links s1). linkIndex k < linkIndexCounter s1" by blast
  with c2 lim have b2: "\<forall>k \<in> set (links s). linkIndex k < linkIndexCounter s" by blast
  from b1 c2 have f1: "\<forall>k \<in> set (links s1). linkIndex k < linkIndex ?r" by fastforce
  from b2 have f2: "\<forall>k \<in> set (links s). linkIndex k < linkIndex ?r" by simp
  from c2 have f0: "linkIndexCounter s1 \<le> linkIndex ?r" by simp
  have cnt: "rootNodeIndex s < m \<longrightarrow> length (links s') = length (links s)"
    using q(3) p(1) bl nonempty by (auto simp: Suc_pred')
  have "action fo stateStack m s = Some (Inr (s', True, warning s')) \<and>
        source ?r = target l \<and> target ?r = source l \<and> lstate ?r = ''returning'' \<and>
        linkIndex ?r = linkIndexCounter s \<and>
        linkIndexCounter s1 \<le> linkIndex ?r \<and>
        (\<forall>k \<in> set (links s1). linkIndex k < linkIndex ?r) \<and>
        (\<forall>k \<in> set (links s). linkIndex k < linkIndex ?r) \<and>
        linkIndexCounter s' = linkIndexCounter s + 1 \<and>
        links s = butlast (links s) @ [l] \<and>
        links s' = (if m < rootNodeIndex s + 1 \<and> 1 < length (nodes s)
                    then splice m (rootNodeIndex s + 1 - m) (?r # butlast (links s))
                    else ?r # butlast (links s)) \<and>
        (rootNodeIndex s < m \<longrightarrow> length (links s') = length (links s)) \<and>
        status (heap s' (target l)) = ''returning''"
    using a f0 f1 f2 q p bl last cnt increment_Suc [OF lim] by simp
  then show ?thesis by blast
qed

theorem exit_step_reverses_last_link_witness:
  "returns (steps plainFormat nestedCalls VisibleFunctionUpdater) \<and>
   isSupportedReturnToCaller (returnState ''b'' [] (Some ''2'')) \<and>
   isNotExitingRootNode (returnState ''b'' [] (Some ''2'')) (reached nestedCalls) = Inr True \<and>
   map linkIndex (links (reached outerCalls)) = [0] \<and>
   links (reached nestedCalls)
     = [\<lparr>source = 0, target = 1, lstate = ''calling'', linkIndex = 0\<rparr>,
        \<lparr>source = 1, target = 2, lstate = ''calling'', linkIndex = 1\<rparr>] \<and>
   linkIndexCounter (reached nestedCalls) = 2 \<and>
   (\<exists>s' w r. action plainFormat [returnState ''b'' [] (Some ''2'')] 1 (reached nestedCalls)
                = Some (Inr (s', True, w)) \<and>
      source r = 2 \<and> target r = 1 \<and> lstate r = ''returning'' \<and> linkIndex r = 2 \<and>
      links s' = [r, \<lparr>source = 0, target = 1, lstate = ''calling'', linkIndex = 0\<rparr>] \<and>
      linkIndexCounter s' = 3 \<and> status (heap s' 2) = ''returning'')"
proof -
  let ?st = "returnState ''b'' [] (Some ''2'')"
  let ?v = "\<lparr>isPrimitive = True, data = Some ''2''\<rparr>"
  let ?l = "\<lparr>source = 1, target = 2, lstate = ''calling'', linkIndex = 1::nat\<rparr>"
  have ok: "returns (steps plainFormat nestedCalls VisibleFunctionUpdater)" by code_simp
  then have ok': "returns (steps plainFormat (outerCalls @ [entering ''b'' [] 1]) VisibleFunctionUpdater)"
    by (simp add: nestedCalls_def)
  from reached_split [OF ok']
  have run1: "steps plainFormat outerCalls VisibleFunctionUpdater = Some (Inr (reached outerCalls))"
    and run2: "steps plainFormat [entering ''b'' [] 1] (reached outerCalls)
                 = Some (Inr (reached nestedCalls))"
    by (simp_all add: nestedCalls_def)
  have top: "at [?st] 0 = Some ?st" by (simp add: at_def)
  have ne: "\<not> isSupportedFunctionCall ?st" by code_simp
  have ret: "isSupportedReturnToCaller ?st" by code_simp
  have nr: "isNotExitingRootNode ?st (reached nestedCalls) = Inr True" by code_simp
  have v: "val ?st = Some ?v" by code_simp
  have dc: "doneCallee ?st" by code_simp
  then have ex: "(doneCallee ?st \<and> isPrimitive ?v \<and> data ?v \<noteq> None) \<or> \<not> isPrimitive ?v"
    by simp
  have ls: "links (reached nestedCalls)
     = [\<lparr>source = 0, target = 1, lstate = ''calling'', linkIndex = 0\<rparr>, ?l]" by code_simp
  then have l: "lodash_last (links (reached nestedCalls)) = Some ?l"
    by (simp add: lodash_last_def)
  have cnt: "linkIndexCounter (reached nestedCalls) = 2" by code_simp
  then have lim: "linkIndexCounter (reached nestedCalls) < 9007199254740992" by simp
  have ri: "rootNodeIndex (reached nestedCalls) = 0" by code_simp
  have ix: "map linkIndex (links (reached outerCalls)) = [0]" by code_simp
  from exit_step_reverses_last_link [OF run1 run2 top ne ret nr v ex l lim, of 1]
  obtain s' w r where
    "action plainFormat [?st] 1 (reached nestedCalls) = Some (Inr (s', True, w))"
    "source r = 2" "target r = 1" "lstate r = ''returning''" "linkIndex r = 2"
    "links s' = [r, \<lparr>source = 0, target = 1, lstate = ''calling'', linkIndex = 0\<rparr>]"
    "linkIndexCounter s' = 3" "status (heap s' 2) = ''returning''"
    using ls cnt ri by auto
  with ok ret nr ix ls cnt show ?thesis by blast
qed

subsection \<open>Suppression of repeated assignment warnings\<close>

















end
